theory Spec2Isabelle
  imports Complex_Main
begin

section \<open>The compound generator of scanpointgenerator\<close>

text \<open>
  A shallow embedding of \<^verbatim>\<open>scanpointgenerator/core/compoundgenerator.py\<close>.

  Conventions of the embedding.
  \<^item> A numpy array of coordinates is a \<open>real list\<close>, a numpy boolean array a
    \<open>bool list\<close>; a Python dict keyed by axis name is a map \<open>string \<rightharpoonup> 'v\<close>.
  \<^item> A generator object is identified by its position in \<open>self.generators\<close>: the
    source compares generators by identity (\<open>is\<close>, \<open>list.index\<close>, dict keys), and the
    position is that identity. A Dimension is identified by its position in
    \<open>self.dimensions\<close> in the same way.
  \<^item> Every \<open>raise\<close>, failed \<open>assert\<close>, missing key, index out of range and division
    by zero of the source is a value of type \<open>error\<close>.
  \<^item> \<open>prepare\<close> mutates the object and may raise half way; it returns the exception
    raised (if any) together with the object as it is left behind.
  \<^item> The mask tile factor is \<open>0.5\<close> times a product of counts in the source; it is the
    exact rational here. \<open>repeat /= l\<close> always divides a product by one of its factors
    and is the exact integer quotient.
\<close>

subsection \<open>Errors\<close>

datatype error =
    TypeError_nested            \<comment> \<open>CompoundGenerators cannot be nested\<close>
  | ValueError_duplicate_axes   \<comment> \<open>Axis names cannot be duplicated\<close>
  | ValueError_not_adjacent     \<comment> \<open>Excluders must be defined on axes that are adjacent\<close>
  | ValueError_alternate        \<comment> \<open>Generators tied by regions must have the same setting\<close>
  | ValueError_exclude_all      \<comment> \<open>Regions would exclude entire scan\<close>
  | AssertionError              \<comment> \<open>Mask lengths are not consistent\<close>
  | ValueError_broadcast        \<comment> \<open>numpy: operands could not be broadcast together\<close>
  | IndexError_out_of_range     \<comment> \<open>Requested point is out of range\<close>
  | IndexError                  \<comment> \<open>a list or array index out of range\<close>
  | KeyError                    \<comment> \<open>a dict key that is absent\<close>
  | AttributeError              \<comment> \<open>an attribute read before it was set\<close>
  | ZeroDivisionError

subsection \<open>The collaborators: generators, excluders, points\<close>

record generator =
  axes :: "string list"
  position_units :: "string \<rightharpoonup> string"
  points :: "string \<rightharpoonup> real list"
  points_lower :: "string \<rightharpoonup> real list"
  points_upper :: "string \<rightharpoonup> real list"
  num :: nat
  alternate_direction :: bool
  is_compound :: bool  \<comment> \<open>\<open>isinstance(generator, CompoundGenerator)\<close>\<close>

record excluder =
  scannables :: "string \<times> string"
  create_mask :: "real list \<Rightarrow> real list \<Rightarrow> bool list"

record point =
  positions :: "string \<rightharpoonup> real"
  lower :: "string \<rightharpoonup> real"
  upper :: "string \<rightharpoonup> real"
  indexes :: "nat list"

definition Point :: point where
  "Point = \<lparr>positions = Map.empty, lower = Map.empty, upper = Map.empty, indexes = []\<rparr>"

type_synonym mutator = "point list \<Rightarrow> point list"

subsection \<open>Dimensions and the compound generator\<close>

record mask_record =
  m_repeat :: nat
  m_tile :: rat
  m_mask :: "bool list"

record dimension =
  dim_size :: nat
  dim_axes :: "string list"
  dim_generators :: "nat list"
  dim_masks :: "mask_record list"
  dim_tile :: nat
  dim_repeat :: nat
  dim_alternate :: bool
  dim_mask :: "bool list option"      \<comment> \<open>key \<open>"mask"\<close>, absent until computed\<close>
  dim_indicies :: "nat list option"   \<comment> \<open>key \<open>"indicies"\<close>, absent until computed\<close>

record compound =
  excluders :: "excluder list"
  mutators :: "mutator list"
  self_axes :: "string list"
  self_position_units :: "string \<rightharpoonup> string"
  axes_points :: "string \<rightharpoonup> real list"
  axes_points_lower :: "string \<rightharpoonup> real list"
  axes_points_upper :: "string \<rightharpoonup> real list"
  dimensions :: "dimension list"
  self_alternate_direction :: "bool list"
  generators :: "generator list"
  generator_dim_scaling :: "nat \<rightharpoonup> nat \<times> nat"  \<comment> \<open>generator \<mapsto> (tile, repeat)\<close>
  self_num :: "nat option"                          \<comment> \<open>not set by \<open>__init__\<close>\<close>

subsection \<open>numpy\<close>

definition np_repeat :: "'a list \<Rightarrow> nat \<Rightarrow> 'a list" where
  "np_repeat xs n = concat (map (replicate n) xs)"

definition np_tile :: "'a list \<Rightarrow> nat \<Rightarrow> 'a list" where
  "np_tile xs n = concat (replicate n xs)"

definition np_append :: "'a list \<Rightarrow> 'a list \<Rightarrow> 'a list" where
  "np_append xs ys = xs @ ys"

definition np_flatnonzero :: "bool list \<Rightarrow> nat list" where
  "np_flatnonzero msk = filter (\<lambda>i. msk ! i) [0..<length msk]"

subsection \<open>Construction\<close>

definition new_compound :: "generator list \<Rightarrow> excluder list \<Rightarrow> mutator list \<Rightarrow> compound" where
  \<comment> \<open>the attribute assignments of \<open>__init__\<close>\<close>
  "new_compound gens excls muts =
     \<lparr>excluders = excls, mutators = muts,
      self_axes = concat (map axes gens),
      self_position_units = foldl (\<lambda>m g. m ++ position_units g) Map.empty gens,
      axes_points = Map.empty, axes_points_lower = Map.empty,
      axes_points_upper = Map.empty, dimensions = [],
      self_alternate_direction = map alternate_direction gens,
      generators = gens, generator_dim_scaling = Map.empty,
      self_num = None\<rparr>"

definition init :: "generator list \<Rightarrow> excluder list \<Rightarrow> mutator list \<Rightarrow> error + compound" where
  \<comment> \<open>\<open>__init__\<close> with its two checks: the \<open>TypeError\<close> is raised inside the loop over
      the generators, the \<open>ValueError\<close> after it\<close>
  "init gens excls muts =
     (if list_ex is_compound gens then Inl TypeError_nested
      else if length (concat (map axes gens)) \<noteq> card (set (concat (map axes gens)))
        then Inl ValueError_duplicate_axes
      else Inr (new_compound gens excls muts))"

subsection \<open>prepare: one Dimension per generator\<close>

definition seed_dimension :: "generator list \<Rightarrow> nat \<Rightarrow> dimension" where
  "seed_dimension gens gi =
     \<lparr>dim_size = num (gens ! gi), dim_axes = axes (gens ! gi), dim_generators = [gi],
      dim_masks = [], dim_tile = 1, dim_repeat = 1,
      dim_alternate = alternate_direction (gens ! gi),
      dim_mask = None, dim_indicies = None\<rparr>"

definition seed_dimensions :: "generator list \<Rightarrow> dimension list" where
  "seed_dimensions gens = map (seed_dimension gens) [0..<length gens]"

subsection \<open>prepare: the excluders\<close>

definition find_gen :: "generator list \<Rightarrow> string \<Rightarrow> error + nat" where
  \<comment> \<open>\<open>self.generators.index([g for g in self.generators if axis in g.axes][0])\<close>\<close>
  "find_gen gens a =
     (case filter (\<lambda>i. a \<in> set (axes (gens ! i))) [0..<length gens] of
        [] \<Rightarrow> Inl IndexError
      | i # _ \<Rightarrow> Inr i)"

definition find_dim :: "dimension list \<Rightarrow> string \<Rightarrow> error + nat" where
  \<comment> \<open>\<open>self.dimensions.index([i for i in self.dimensions if axis in i["axes"]][0])\<close>\<close>
  "find_dim dims a =
     (case filter (\<lambda>i. a \<in> set (dim_axes (dims ! i))) [0..<length dims] of
        [] \<Rightarrow> Inl IndexError
      | i # _ \<Rightarrow> Inr i)"

definition gens_scale :: "generator list \<Rightarrow> nat list \<Rightarrow> nat" where
  \<comment> \<open>\<open>scale = 1; for g in gs: scale *= g.num\<close>\<close>
  "gens_scale gens gs = foldl (\<lambda>scale g. scale * num (gens ! g)) 1 gs"

definition merge_dims :: "generator list \<Rightarrow> dimension list \<Rightarrow> nat \<Rightarrow> nat \<Rightarrow> dimension list" where
  \<comment> \<open>the branch \<open>dim_diff == -1\<close>: Dimension \<open>d2\<close> is folded into Dimension \<open>d1\<close>
      and removed from the list\<close>
  "merge_dims gens dims d1 d2 =
     (let dim_1 = dims ! d1; dim_2 = dims ! d2;
          scale_2 = gens_scale gens (dim_generators dim_2);
          masks_1 = map (\<lambda>m. m\<lparr>m_repeat := m_repeat m * scale_2\<rparr>) (dim_masks dim_1);
          scale_1 = gens_scale gens (dim_generators dim_1);
          masks_2 = map (\<lambda>m. m\<lparr>m_tile := m_tile m * of_nat scale_1\<rparr>) (dim_masks dim_2);
          merged = dim_1\<lparr>dim_masks := masks_1 @ masks_2,
                         dim_axes := dim_axes dim_1 @ dim_axes dim_2,
                         dim_generators := dim_generators dim_1 @ dim_generators dim_2,
                         dim_size := dim_size dim_1 * dim_size dim_2\<rparr>
      in take d2 (dims[d1 := merged]) @ drop (Suc d2) (dims[d1 := merged]))"

definition region_points ::
  "bool \<Rightarrow> bool \<Rightarrow> nat \<Rightarrow> nat \<Rightarrow> real list \<Rightarrow> real list \<Rightarrow> bool \<times> real list \<times> real list" where
  \<comment> \<open>arguments: \<open>gen_1 is gen_2\<close>, \<open>dim["alternate"]\<close>, \<open>gen_1.num\<close>, \<open>gen_2.num\<close> and
      the two coordinate arrays; result: \<open>doubled_mask\<close> and the expanded arrays\<close>
  "region_points same alternate num_1 num_2 points_1 points_2 =
     (if same \<and> alternate then
        (True, np_append points_1 (rev points_1), np_append points_2 (rev points_2))
      else if alternate then
        (True, np_repeat (np_append points_1 (rev points_1)) num_2,
               np_tile (np_append points_2 (rev points_2)) num_1)
      else if \<not> same then
        (False, np_repeat points_1 num_2, np_tile points_2 num_1)
      else (False, points_1, points_2))"

fun mask_scaling ::
  "generator list \<Rightarrow> string \<Rightarrow> string \<Rightarrow> nat list \<Rightarrow> rat \<Rightarrow> nat \<Rightarrow> bool \<Rightarrow> rat \<times> nat" where
  \<comment> \<open>the loop over \<open>dim["generators"]\<close> that computes \<open>tile\<close> and \<open>repeat\<close>\<close>
  "mask_scaling gens axis_1 axis_2 [] tile repeat found_axis = (tile, repeat)"
| "mask_scaling gens axis_1 axis_2 (g # gs) tile repeat found_axis =
     (if axis_1 \<in> set (axes (gens ! g)) \<or> axis_2 \<in> set (axes (gens ! g))
      then mask_scaling gens axis_1 axis_2 gs tile repeat True
      else if found_axis
        then mask_scaling gens axis_1 axis_2 gs tile (repeat * num (gens ! g)) found_axis
        else mask_scaling gens axis_1 axis_2 gs (tile * of_nat (num (gens ! g))) repeat found_axis)"

definition add_mask ::
  "generator list \<Rightarrow> (string \<rightharpoonup> real list) \<Rightarrow> dimension list \<Rightarrow> excluder \<Rightarrow>
   nat \<Rightarrow> nat \<Rightarrow> nat \<Rightarrow> string \<Rightarrow> string \<Rightarrow> error option \<times> dimension list" where
  \<comment> \<open>the second half of the loop body, from \<open>dim = dim_1\<close> on\<close>
  "add_mask gens ap dims e d gen_1 gen_2 axis_1 axis_2 =
     (case ap axis_1 of None \<Rightarrow> (Some KeyError, dims) | Some points_1 \<Rightarrow>
     (case ap axis_2 of None \<Rightarrow> (Some KeyError, dims) | Some points_2 \<Rightarrow>
      (let dm = dims ! d;
           (doubled_mask, points_1, points_2) =
              region_points (gen_1 = gen_2) (dim_alternate dm)
                (num (gens ! gen_1)) (num (gens ! gen_2)) points_1 points_2;
           msk = (if axis_1 = fst (scannables e)
                   then create_mask e points_1 points_2
                   else create_mask e points_2 points_1);
           (tile, repeat) =
              mask_scaling gens axis_1 axis_2 (dim_generators dm)
                (if doubled_mask then 1 / 2 else 1) 1 False;
           m = \<lparr>m_repeat = repeat, m_tile = tile, m_mask = msk\<rparr>
       in (None, dims[d := dm\<lparr>dim_masks := dim_masks dm @ [m]\<rparr>]))))"

definition merge_step ::
  "generator list \<Rightarrow> (string \<rightharpoonup> real list) \<Rightarrow> dimension list \<Rightarrow> excluder \<Rightarrow>
   nat \<Rightarrow> nat \<Rightarrow> string \<Rightarrow> string \<Rightarrow> error option \<times> dimension list" where
  \<comment> \<open>the loop body from \<open>dim_1 = ...\<close> on, for the canonical generators and axes.
      \<open>dim_diff == 1\<close> swaps \<open>dim_1\<close> and \<open>dim_2\<close> and then merges like \<open>dim_diff == -1\<close>\<close>
  "merge_step gens ap dims e gen_1 gen_2 axis_1 axis_2 =
     (case find_dim dims axis_1 of Inl err \<Rightarrow> (Some err, dims) | Inr d1 \<Rightarrow>
     (case find_dim dims axis_2 of Inl err \<Rightarrow> (Some err, dims) | Inr d2 \<Rightarrow>
       if dim_alternate (dims ! d1) \<noteq> dim_alternate (dims ! d2)
         then (Some ValueError_alternate, dims)
       else if int d1 - int d2 < - 1 \<or> int d1 - int d2 > 1
         then (Some ValueError_not_adjacent, dims)
       else if int d1 - int d2 = 1
         then add_mask gens ap (merge_dims gens dims d2 d1) e d2 gen_1 gen_2 axis_1 axis_2
       else if int d1 - int d2 = - 1
         then add_mask gens ap (merge_dims gens dims d1 d2) e d1 gen_1 gen_2 axis_1 axis_2
       else add_mask gens ap dims e d1 gen_1 gen_2 axis_1 axis_2))"

definition excluder_step ::
  "generator list \<Rightarrow> (string \<rightharpoonup> real list) \<Rightarrow> dimension list \<Rightarrow> excluder \<Rightarrow>
   error option \<times> dimension list" where
  \<comment> \<open>the body of the loop \<open>for excluder in self.excluders\<close>. \<open>gen_diff == 1\<close> swaps the
      generators and the axes\<close>
  "excluder_step gens ap dims e =
     (case find_gen gens (fst (scannables e)) of Inl err \<Rightarrow> (Some err, dims) | Inr g1 \<Rightarrow>
     (case find_gen gens (snd (scannables e)) of Inl err \<Rightarrow> (Some err, dims) | Inr g2 \<Rightarrow>
       if int g1 - int g2 < - 1 \<or> int g1 - int g2 > 1
         then (Some ValueError_not_adjacent, dims)
       else if int g1 - int g2 = 1
         then merge_step gens ap dims e g2 g1 (snd (scannables e)) (fst (scannables e))
       else merge_step gens ap dims e g1 g2 (fst (scannables e)) (snd (scannables e))))"

fun run_excluders ::
  "generator list \<Rightarrow> (string \<rightharpoonup> real list) \<Rightarrow> dimension list \<Rightarrow> excluder list \<Rightarrow>
   error option \<times> dimension list" where
  "run_excluders gens ap dims [] = (None, dims)"
| "run_excluders gens ap dims (e # es) =
     (case excluder_step gens ap dims e of
        (Some err, dims') \<Rightarrow> (Some err, dims')
      | (None, dims') \<Rightarrow> run_excluders gens ap dims' es)"

subsection \<open>prepare: the full masks and the valid indices\<close>

definition assert_consistent :: "mask_record \<Rightarrow> nat \<Rightarrow> bool" where
  \<comment> \<open>\<open>len(m["mask"]) * m["repeat"] * m["tile"] == len(mask)\<close>\<close>
  "assert_consistent m n \<longleftrightarrow>
     of_nat (length (m_mask m)) * of_nat (m_repeat m) * m_tile m = (of_nat n :: rat)"

definition expand_mask :: "mask_record \<Rightarrow> bool list" where
  \<comment> \<open>\<open>m["tile"] % 1 != 0\<close> is \<open>frac\<close>; \<open>int(m["tile"])\<close> is the floor, the tile factor
      being never negative\<close>
  "expand_mask m =
     (let expanded = np_repeat (m_mask m) (m_repeat m) in
      if frac (m_tile m) \<noteq> 0
      then np_append (np_tile expanded (nat \<lfloor>m_tile m\<rfloor>)) (take (length expanded div 2) expanded)
      else np_tile expanded (nat \<lfloor>m_tile m\<rfloor>))"

definition np_iand :: "bool list \<Rightarrow> bool list \<Rightarrow> error + bool list" where
  \<comment> \<open>\<open>mask &= expanded\<close> on one-dimensional arrays: elementwise on equal lengths, an
      operand of length one is broadcast, any other pair of lengths is an error\<close>
  "np_iand msk expanded =
     (if length expanded = length msk then Inr (map2 (\<and>) msk expanded)
      else if length expanded = 1 then Inr (map (\<lambda>b. b \<and> expanded ! 0) msk)
      else Inl ValueError_broadcast)"

fun combine_masks :: "bool list \<Rightarrow> mask_record list \<Rightarrow> error + bool list" where
  \<comment> \<open>the loop \<open>for m in dim["masks"]\<close>\<close>
  "combine_masks msk [] = Inr msk"
| "combine_masks msk (m # ms) =
     (if \<not> assert_consistent m (length msk) then Inl AssertionError
      else (case np_iand msk (expand_mask m) of
              Inl err \<Rightarrow> Inl err
            | Inr msk' \<Rightarrow> combine_masks msk' ms))"

fun apply_masks :: "dimension list \<Rightarrow> nat \<Rightarrow> error option \<times> dimension list \<times> nat" where
  \<comment> \<open>the first loop over \<open>self.dimensions\<close>; the number is the local \<open>repeat\<close>\<close>
  "apply_masks [] repeat = (None, [], repeat)"
| "apply_masks (dm # dims) repeat =
     (case combine_masks (replicate (dim_size dm) True) (dim_masks dm) of
        Inl err \<Rightarrow> (Some err, dm # dims, repeat)
      | Inr msk \<Rightarrow>
          (let dm' = dm\<lparr>dim_mask := Some msk, dim_indicies := Some (np_flatnonzero msk)\<rparr> in
           if length (np_flatnonzero msk) = 0
           then (Some ValueError_exclude_all, dm' # dims, repeat)
           else (case apply_masks dims (repeat * length (np_flatnonzero msk)) of
                   (err, dims', repeat') \<Rightarrow> (err, dm' # dims', repeat'))))"

subsection \<open>prepare: the scaling factors\<close>

fun dim_scaling :: "dimension list \<Rightarrow> nat \<Rightarrow> nat \<Rightarrow> error option \<times> dimension list" where
  \<comment> \<open>the second loop over \<open>self.dimensions\<close>, with the locals \<open>tile\<close> and \<open>repeat\<close>\<close>
  "dim_scaling [] tile repeat = (None, [])"
| "dim_scaling (dm # dims) tile repeat =
     (case dim_indicies dm of
        None \<Rightarrow> (Some KeyError, dm # dims)
      | Some indicies \<Rightarrow>
          if length indicies = 0 then (Some ZeroDivisionError, dm # dims)
          else (case dim_scaling dims (tile * length indicies) (repeat div length indicies) of
                  (err, dims') \<Rightarrow>
                    (err, dm\<lparr>dim_tile := tile, dim_repeat := repeat div length indicies\<rparr> # dims')))"

fun gen_scaling ::
  "generator list \<Rightarrow> nat list \<Rightarrow> nat \<Rightarrow> nat \<Rightarrow> (nat \<rightharpoonup> nat \<times> nat) \<Rightarrow>
   error option \<times> (nat \<rightharpoonup> nat \<times> nat)" where
  \<comment> \<open>the inner loop \<open>for g in dim["generators"]\<close> that fills \<open>generator_dim_scaling\<close>\<close>
  "gen_scaling gens [] tile repeat sc = (None, sc)"
| "gen_scaling gens (g # gs) tile repeat sc =
     (if num (gens ! g) = 0 then (Some ZeroDivisionError, sc)
      else gen_scaling gens gs (tile * num (gens ! g)) (repeat div num (gens ! g))
             (sc(g \<mapsto> (tile, repeat div num (gens ! g)))))"

fun all_gen_scaling ::
  "generator list \<Rightarrow> dimension list \<Rightarrow> (nat \<rightharpoonup> nat \<times> nat) \<Rightarrow>
   error option \<times> (nat \<rightharpoonup> nat \<times> nat)" where
  \<comment> \<open>the third loop over \<open>self.dimensions\<close>\<close>
  "all_gen_scaling gens [] sc = (None, sc)"
| "all_gen_scaling gens (dm # dims) sc =
     (case gen_scaling gens (dim_generators dm) 1 (gens_scale gens (dim_generators dm)) sc of
        (Some err, sc') \<Rightarrow> (Some err, sc')
      | (None, sc') \<Rightarrow> all_gen_scaling gens dims sc')"

subsection \<open>prepare\<close>

definition produce_all :: "compound \<Rightarrow> compound" where
  \<comment> \<open>the first loop of \<open>prepare\<close>, after \<open>self.num = 1; self.dimensions = []\<close>.
      \<open>generator.produce_points()\<close> regenerates the arrays the generator record holds\<close>
  "produce_all s =
     s\<lparr>axes_points := foldl (\<lambda>m g. m ++ points g) (axes_points s) (generators s),
       axes_points_lower := foldl (\<lambda>m g. m ++ points_lower g) (axes_points_lower s) (generators s),
       axes_points_upper := foldl (\<lambda>m g. m ++ points_upper g) (axes_points_upper s) (generators s),
       self_num := Some (foldl (\<lambda>n g. n * num g) 1 (generators s)),
       dimensions := seed_dimensions (generators s)\<rparr>"

definition prepare :: "compound \<Rightarrow> error option \<times> compound" where
  "prepare s =
     (let s1 = produce_all s in
      (case run_excluders (generators s1) (axes_points s1) (dimensions s1) (excluders s1) of
        (Some err, dims) \<Rightarrow> (Some err, s1\<lparr>dimensions := dims\<rparr>)
      | (None, dims) \<Rightarrow>
      (case apply_masks dims 1 of
        (Some err, dims, repeat) \<Rightarrow> (Some err, s1\<lparr>dimensions := dims\<rparr>)
      | (None, dims, repeat) \<Rightarrow>
      (case dim_scaling dims 1 repeat of
        (Some err, dims) \<Rightarrow> (Some err, s1\<lparr>dimensions := dims, self_num := Some repeat\<rparr>)
      | (None, dims) \<Rightarrow>
      (case all_gen_scaling (generators s1) dims (generator_dim_scaling s1) of
        (err, sc) \<Rightarrow>
          (err, s1\<lparr>dimensions := dims, self_num := Some repeat,
                  generator_dim_scaling := sc\<rparr>))))))"

subsection \<open>get_point and iterator\<close>

definition lookup_at :: "(string \<rightharpoonup> real list) \<Rightarrow> string \<Rightarrow> nat \<Rightarrow> error + real" where
  \<comment> \<open>\<open>d[axis][j]\<close> for a dict of arrays and an index that is never negative\<close>
  "lookup_at d axis j =
     (case d axis of None \<Rightarrow> Inl KeyError
      | Some xs \<Rightarrow> if j < length xs then Inr (xs ! j) else Inl IndexError)"

fun set_axes :: "generator \<Rightarrow> nat \<Rightarrow> string list \<Rightarrow> point \<Rightarrow> error + point" where
  \<comment> \<open>the loop \<open>for axis in g.axes\<close>\<close>
  "set_axes g j [] p = Inr p"
| "set_axes g j (axis # as) p =
     (case lookup_at (points g) axis j of Inl err \<Rightarrow> Inl err | Inr x \<Rightarrow>
     (case lookup_at (points_lower g) axis j of Inl err \<Rightarrow> Inl err | Inr l \<Rightarrow>
     (case lookup_at (points_upper g) axis j of Inl err \<Rightarrow> Inl err | Inr u \<Rightarrow>
      set_axes g j as (p\<lparr>positions := (positions p)(axis \<mapsto> x),
                         lower := (lower p)(axis \<mapsto> l),
                         upper := (upper p)(axis \<mapsto> u)\<rparr>))))"

fun point_gens :: "compound \<Rightarrow> dimension \<Rightarrow> nat \<Rightarrow> nat list \<Rightarrow> point \<Rightarrow> error + point" where
  \<comment> \<open>the loop \<open>for g in dim["generators"]\<close> of \<open>get_point\<close>, at raw index \<open>k\<close>\<close>
  "point_gens s dm k [] p = Inr p"
| "point_gens s dm k (g # gs) p =
     (case generator_dim_scaling s g of None \<Rightarrow> Inl KeyError | Some (t, rep) \<Rightarrow>
      if rep = 0 then Inl ZeroDivisionError else
      if num (generators s ! g) = 0 then Inl ZeroDivisionError else
      (let j = k div rep;
           gr = j div num (generators s ! g);
           j = j mod num (generators s ! g);
           j = (if dim_alternate dm \<and> g \<noteq> hd (dim_generators dm) \<and> gr mod 2 = 1
                then num (generators s ! g) - j - 1 else j)
       in case set_axes (generators s ! g) j (axes (generators s ! g)) p of
            Inl err \<Rightarrow> Inl err
          | Inr p' \<Rightarrow> point_gens s dm k gs p'))"

fun point_dims :: "compound \<Rightarrow> int \<Rightarrow> dimension list \<Rightarrow> nat \<Rightarrow> point \<Rightarrow> error + point" where
  \<comment> \<open>the loop \<open>for dim in self.dimensions\<close> of \<open>get_point\<close>, with the cumulative \<open>kc\<close>\<close>
  "point_dims s n [] kc p = Inr p"
| "point_dims s n (dm # dims) kc p =
     (case dim_indicies dm of None \<Rightarrow> Inl KeyError | Some indicies \<Rightarrow>
      if dim_repeat dm = 0 then Inl ZeroDivisionError else
      if length indicies = 0 then Inl ZeroDivisionError else
      (let i = nat ((n div int (dim_repeat dm)) mod int (length indicies));
           k = indicies ! i;
           i = (if dim_alternate dm \<and> kc mod 2 = 1 then length indicies - i - 1 else i);
           kc = kc * length indicies + k;
           k = indicies ! i
       in case point_gens s dm k (dim_generators dm) (p\<lparr>indexes := indexes p @ [i]\<rparr>) of
            Inl err \<Rightarrow> Inl err
          | Inr p' \<Rightarrow> point_dims s n dims kc p'))"

definition get_point :: "compound \<Rightarrow> int \<Rightarrow> error + point" where
  "get_point s n =
     (case self_num s of None \<Rightarrow> Inl AttributeError | Some total_num \<Rightarrow>
      if n \<ge> int total_num then Inl IndexError_out_of_range
      else point_dims s n (dimensions s) 0 Point)"

fun collect_points :: "compound \<Rightarrow> int list \<Rightarrow> error + point list" where
  \<comment> \<open>the generator expression \<open>(self.get_point(n) for n in ...)\<close>, consumed to its end\<close>
  "collect_points s [] = Inr []"
| "collect_points s (n # ns) =
     (case get_point s n of Inl err \<Rightarrow> Inl err | Inr p \<Rightarrow>
     (case collect_points s ns of Inl err \<Rightarrow> Inl err | Inr ps \<Rightarrow> Inr (p # ps)))"

definition iterator :: "compound \<Rightarrow> error + point list" where
  "iterator s =
     (case self_num s of None \<Rightarrow> Inl AttributeError | Some total_num \<Rightarrow>
     (case collect_points s (map int [0..<total_num]) of Inl err \<Rightarrow> Inl err
      | Inr ps \<Rightarrow> Inr (foldl (\<lambda>it m. m it) ps (mutators s))))"

subsection \<open>The contracts of the collaborators\<close>

definition arrays_ok :: "(string \<rightharpoonup> real list) \<Rightarrow> string list \<Rightarrow> nat \<Rightarrow> bool" where
  \<comment> \<open>a dict of arrays that has exactly the given axes as keys, each array of length \<open>n\<close>\<close>
  "arrays_ok d as n \<longleftrightarrow> dom d = set as \<and> (\<forall>a xs. d a = Some xs \<longrightarrow> length xs = n)"

definition generator_ok :: "generator \<Rightarrow> bool" where
  \<comment> \<open>the postcondition of \<open>produce_points()\<close>: one array of length \<open>num\<close> per axis\<close>
  "generator_ok g \<longleftrightarrow>
     arrays_ok (points g) (axes g) (num g) \<and>
     arrays_ok (points_lower g) (axes g) (num g) \<and>
     arrays_ok (points_upper g) (axes g) (num g)"

definition excluder_ok :: "excluder \<Rightarrow> bool" where
  \<comment> \<open>\<open>create_mask\<close> returns a mask as long as its two coordinate arrays\<close>
  "excluder_ok e \<longleftrightarrow>
     (\<forall>xs ys. length xs = length ys \<longrightarrow> length (create_mask e xs ys) = length xs)"

subsection \<open>The specification of the combined mask\<close>

definition spec_expanded :: "mask_record \<Rightarrow> bool list" where
  \<comment> \<open>every element repeated \<open>repeat\<close> times, the result tiled \<open>tile\<close> times; for a
      half-integer \<open>tile\<close>, tiled by its integer part and followed by the first half\<close>
  "spec_expanded m =
     (let repeated = concat (map (replicate (m_repeat m)) (m_mask m)) in
      if frac (m_tile m) = 1 / 2
      then concat (replicate (nat \<lfloor>m_tile m\<rfloor>) repeated) @ take (length repeated div 2) repeated
      else concat (replicate (nat \<lfloor>m_tile m\<rfloor>) repeated))"

definition spec_combined :: "dimension \<Rightarrow> bool list" where
  \<comment> \<open>position \<open>i\<close> is kept when every recorded mask, expanded, keeps it\<close>
  "spec_combined d =
     map (\<lambda>i. list_all (\<lambda>m. spec_expanded m ! i) (dim_masks d)) [0..<dim_size d]"

definition spec_indices :: "dimension \<Rightarrow> nat list" where
  "spec_indices d = filter (\<lambda>i. spec_combined d ! i) [0..<dim_size d]"

subsection \<open>The invariant of the Dimensions while the excluders are processed\<close>

definition owner_axes :: "generator list \<Rightarrow> nat list \<Rightarrow> string list" where
  "owner_axes gens gs = concat (map (\<lambda>g. axes (gens ! g)) gs)"

definition half_integral :: "rat \<Rightarrow> bool" where
  "half_integral t \<longleftrightarrow> (\<exists>k::nat. t * 2 = of_nat k)"

definition masks_half_integral :: "dimension list \<Rightarrow> bool" where
  \<comment> \<open>every tile factor is a whole number of halves\<close>
  "masks_half_integral dims \<longleftrightarrow>
     (\<forall>d \<in> set dims. \<forall>m \<in> set (dim_masks d). half_integral (m_tile m))"

definition full_mask :: "dimension \<Rightarrow> error + bool list" where
  \<comment> \<open>the mask the first loop over the Dimensions computes for a Dimension\<close>
  "full_mask d = combine_masks (replicate (dim_size d) True) (dim_masks d)"

definition dimension_inv :: "generator list \<Rightarrow> dimension \<Rightarrow> bool" where
  "dimension_inv gens d \<longleftrightarrow>
     dim_axes d = owner_axes gens (dim_generators d) \<and>
     dim_size d = gens_scale gens (dim_generators d) \<and>
     (\<forall>m \<in> set (dim_masks d). assert_consistent m (dim_size d))"

definition dimensions_inv :: "generator list \<Rightarrow> dimension list \<Rightarrow> bool" where
  "dimensions_inv gens dims \<longleftrightarrow>
     concat (map dim_generators dims) = [0..<length gens] \<and>
     (\<forall>d \<in> set dims. dimension_inv gens d)"

subsection \<open>Example configurations\<close>

definition gen_A :: generator where
  "gen_A = \<lparr>axes = [''a''], position_units = [''a'' \<mapsto> ''mm''],
            points = [''a'' \<mapsto> [0, 1]], points_lower = [''a'' \<mapsto> [-1/2, 1/2]],
            points_upper = [''a'' \<mapsto> [1/2, 3/2]], num = 2,
            alternate_direction = False, is_compound = False\<rparr>"

definition gen_B :: generator where
  "gen_B = \<lparr>axes = [''b''], position_units = [''b'' \<mapsto> ''mm''],
            points = [''b'' \<mapsto> [10, 20, 30]], points_lower = [''b'' \<mapsto> [5, 15, 25]],
            points_upper = [''b'' \<mapsto> [15, 25, 35]], num = 3,
            alternate_direction = False, is_compound = False\<rparr>"

definition gen_C :: generator where
  "gen_C = \<lparr>axes = [''c''], position_units = [''c'' \<mapsto> ''mm''],
            points = [''c'' \<mapsto> [7, 8]], points_lower = [''c'' \<mapsto> [13/2, 15/2]],
            points_upper = [''c'' \<mapsto> [15/2, 17/2]], num = 2,
            alternate_direction = False, is_compound = False\<rparr>"

definition point_AB :: "real \<Rightarrow> real \<Rightarrow> nat \<Rightarrow> nat \<Rightarrow> point" where
  \<comment> \<open>the point of the generators \<open>gen_A\<close> and \<open>gen_B\<close> at the given positions and indexes\<close>
  "point_AB x y i j =
     \<lparr>positions = [''a'' \<mapsto> x, ''b'' \<mapsto> y],
      lower = [''a'' \<mapsto> x - 1/2, ''b'' \<mapsto> y - 5],
      upper = [''a'' \<mapsto> x + 1/2, ''b'' \<mapsto> y + 5],
      indexes = [i, j]\<rparr>"

definition prepared_AB :: compound where
  "prepared_AB = snd (prepare (new_compound [gen_A, gen_B] [] []))"

definition gen_A2 :: generator where
  \<comment> \<open>a second generator on the axis of \<open>gen_A\<close>\<close>
  "gen_A2 = \<lparr>axes = [''a''], position_units = [''a'' \<mapsto> ''mm''],
             points = [''a'' \<mapsto> [4, 5, 6]], points_lower = [''a'' \<mapsto> [7/2, 9/2, 11/2]],
             points_upper = [''a'' \<mapsto> [9/2, 11/2, 13/2]], num = 3,
             alternate_direction = False, is_compound = False\<rparr>"

definition gen_nested :: generator where
  \<comment> \<open>a compound generator passed as a constituent\<close>
  "gen_nested = gen_C\<lparr>is_compound := True\<rparr>"

definition read_point :: "string list \<Rightarrow> error + point \<Rightarrow> error + real option list \<times> nat list" where
  \<comment> \<open>what a caller reads off a returned point: the positions on the given axes, in
      order, and the indexes\<close>
  "read_point as r = map_sum id (\<lambda>p. (map (positions p) as, indexes p)) r"

definition read_bounds ::
  "string list \<Rightarrow> error + point \<Rightarrow> error + (real option \<times> real option) list" where
  \<comment> \<open>the lower and upper bounds of a returned point on the given axes\<close>
  "read_bounds as r = map_sum id (\<lambda>p. map (\<lambda>a. (lower p a, upper p a)) as) r"

definition gen_B_alt :: generator where
  \<comment> \<open>\<open>gen_B\<close>, alternating\<close>
  "gen_B_alt = gen_B\<lparr>alternate_direction := True\<rparr>"

definition excluder_ab :: excluder where
  \<comment> \<open>a region on the axes \<open>a\<close> and \<open>b\<close> that rejects the one pair \<open>(1, 20)\<close>\<close>
  "excluder_ab =
     \<lparr>scannables = (''a'', ''b''),
      create_mask = (\<lambda>xs ys. map2 (\<lambda>x y. \<not> (x = 1 \<and> y = 20)) xs ys)\<rparr>"

definition excluder_ac :: excluder where
  \<comment> \<open>a region on the axes \<open>a\<close> and \<open>c\<close> that keeps every pair\<close>
  "excluder_ac =
     \<lparr>scannables = (''a'', ''c''), create_mask = (\<lambda>xs ys. map2 (\<lambda>x y. True) xs ys)\<rparr>"

definition apart_dimensions :: "dimension list" where
  \<comment> \<open>three Dimensions with the axes \<open>a\<close> and \<open>b\<close> in the first and the last: a list
      that \<open>prepare\<close> never builds for two generators\<close>
  "apart_dimensions =
     [seed_dimension [gen_A, gen_B] 0,
      (seed_dimension [gen_A, gen_B] 0)\<lparr>dim_axes := [''z'']\<rparr>,
      seed_dimension [gen_A, gen_B] 1]"

definition gen_A_alt :: generator where
  \<comment> \<open>\<open>gen_A\<close>, alternating\<close>
  "gen_A_alt = gen_A\<lparr>alternate_direction := True\<rparr>"

definition masked_dimension :: "dimension \<Rightarrow> dimension" where
  \<comment> \<open>a Dimension after the first loop over the Dimensions, with the mask and the valid
      indices of the specification\<close>
  "masked_dimension d =
     d\<lparr>dim_mask := Some (spec_combined d), dim_indicies := Some (spec_indices d)\<rparr>"

definition config_masked :: compound where
  \<comment> \<open>the 2 by 3 grid of \<open>gen_A\<close> and \<open>gen_B\<close> with the region \<open>excluder_ab\<close>\<close>
  "config_masked = new_compound [gen_A, gen_B] [excluder_ab] []"

definition config_alt_masked :: compound where
  \<comment> \<open>the same grid and region with both generators alternating\<close>
  "config_alt_masked = new_compound [gen_A_alt, gen_B_alt] [excluder_ab] []"

definition axes_points_ok :: "generator list \<Rightarrow> (string \<rightharpoonup> real list) \<Rightarrow> bool" where
  \<comment> \<open>\<open>self.axes_points\<close> holds, for every axis of every generator, an array as long as
      the generator's count\<close>
  "axes_points_ok gens ap \<longleftrightarrow>
     (\<forall>g < length gens. \<forall>a \<in> set (axes (gens ! g)).
        \<exists>ps. ap a = Some ps \<and> length ps = num (gens ! g))"

definition excluder_none :: excluder where
  \<comment> \<open>a region on the axes \<open>a\<close> and \<open>b\<close> that rejects every pair\<close>
  "excluder_none =
     \<lparr>scannables = (''a'', ''b''), create_mask = (\<lambda>xs ys. map2 (\<lambda>x y. False) xs ys)\<rparr>"

definition config_excluded :: compound where
  \<comment> \<open>the 2 by 3 grid of \<open>gen_A\<close> and \<open>gen_B\<close> with a region that rejects all of it\<close>
  "config_excluded = new_compound [gen_A, gen_B] [excluder_none] []"

definition excluded_dimensions :: "compound \<Rightarrow> dimension list" where
  \<comment> \<open>the Dimensions as the loop over the excluders leaves them\<close>
  "excluded_dimensions s =
     snd (run_excluders (generators s) (axes_points (produce_all s))
            (seed_dimensions (generators s)) (excluders s))"

section \<open>Properties\<close>

subsection \<open>The empty compound generator\<close>

text \<open>
  Claim C10. A compound generator constructed with no generators, no excluders and no
  mutators is accepted by the constructor; \<open>prepare\<close> succeeds and sets the total number of
  points to 1; \<open>get_point(0)\<close> is the point with empty positions, lower and upper bounds and
  indexes; the iterator yields exactly that one point.
\<close>

theorem empty_generators:
  "init [] [] [] = Inr (new_compound [] [] []) \<and>
   fst (prepare (new_compound [] [] [])) = None \<and>
   self_num (snd (prepare (new_compound [] [] []))) = Some 1 \<and>
   get_point (snd (prepare (new_compound [] [] []))) 0 =
     Inr \<lparr>positions = Map.empty, lower = Map.empty, upper = Map.empty, indexes = []\<rparr> \<and>
   iterator (snd (prepare (new_compound [] [] []))) =
     Inr [\<lparr>positions = Map.empty, lower = Map.empty, upper = Map.empty, indexes = []\<rparr>]"
  by (simp add: init_def prepare_def new_compound_def produce_all_def seed_dimensions_def
      get_point_def iterator_def Point_def)

subsection \<open>The errors each phase of prepare can raise\<close>

lemma find_gen_errors: "find_gen gens a = Inl err \<Longrightarrow> err = IndexError"
  by (auto simp: find_gen_def split: list.splits)

lemma find_dim_errors: "find_dim dims a = Inl err \<Longrightarrow> err = IndexError"
  by (auto simp: find_dim_def split: list.splits)

lemma add_mask_errors:
  "add_mask gens ap dims e d g1 g2 a1 a2 = (Some err, dims') \<Longrightarrow> err = KeyError"
  by (auto simp: add_mask_def Let_def split: option.splits prod.splits)

lemma merge_step_errors:
  "merge_step gens ap dims e g1 g2 a1 a2 = (Some err, dims') \<Longrightarrow>
     err \<in> {IndexError, KeyError, ValueError_not_adjacent, ValueError_alternate}"
  unfolding merge_step_def
  by (auto split: sum.splits if_splits dest: find_dim_errors add_mask_errors)

lemma excluder_step_errors:
  "excluder_step gens ap dims e = (Some err, dims') \<Longrightarrow>
     err \<in> {IndexError, KeyError, ValueError_not_adjacent, ValueError_alternate}"
  unfolding excluder_step_def
  by (auto split: sum.splits if_splits dest: find_gen_errors merge_step_errors)

lemma run_excluders_errors:
  "fst (run_excluders gens ap dims es) \<in>
     {None, Some IndexError, Some KeyError, Some ValueError_not_adjacent, Some ValueError_alternate}"
proof (induction es arbitrary: dims)
  case Nil
  then show ?case by simp
next
  case (Cons e es)
  show ?case
  proof (cases "excluder_step gens ap dims e")
    case (Pair r dims')
    show ?thesis
    proof (cases r)
      case None
      with Pair Cons.IH[of dims'] show ?thesis by simp
    next
      case (Some err)
      with Pair excluder_step_errors[of gens ap dims e err dims'] show ?thesis by auto
    qed
  qed
qed

lemma np_iand_errors: "np_iand msk expanded = Inl err \<Longrightarrow> err = ValueError_broadcast"
  by (auto simp: np_iand_def split: if_splits)

lemma combine_masks_errors:
  "combine_masks msk ms = Inl err \<Longrightarrow> err = AssertionError \<or> err = ValueError_broadcast"
  by (induction msk ms rule: combine_masks.induct)
     (auto split: if_splits sum.splits dest: np_iand_errors)

lemma apply_masks_errors:
  "fst (apply_masks dims r) \<in>
     {None, Some AssertionError, Some ValueError_broadcast, Some ValueError_exclude_all}"
proof (induction dims arbitrary: r)
  case Nil
  then show ?case by simp
next
  case (Cons dm dims)
  show ?case
  proof (cases "combine_masks (replicate (dim_size dm) True) (dim_masks dm)")
    case (Inl err)
    then show ?thesis using combine_masks_errors[OF Inl] by auto
  next
    case (Inr msk)
    show ?thesis
      using Inr Cons.IH[of "r * length (np_flatnonzero msk)"]
      by (cases "apply_masks dims (r * length (np_flatnonzero msk))") (auto simp: Let_def)
  qed
qed

lemma dim_scaling_errors:
  "fst (dim_scaling dims t r) \<in> {None, Some KeyError, Some ZeroDivisionError}"
proof (induction dims arbitrary: t r)
  case Nil
  then show ?case by simp
next
  case (Cons dm dims)
  show ?case
  proof (cases "dim_indicies dm")
    case None
    then show ?thesis by simp
  next
    case (Some ind)
    show ?thesis
      using Some Cons.IH[of "t * length ind" "r div length ind"]
      by (cases "dim_scaling dims (t * length ind) (r div length ind)") auto
  qed
qed

lemma gen_scaling_errors:
  "fst (gen_scaling gens gs t r sc) \<in> {None, Some ZeroDivisionError}"
proof (induction gs arbitrary: t r sc)
  case Nil
  then show ?case by simp
next
  case (Cons g gs)
  show ?case
    using Cons.IH[of "t * num (gens ! g)" "r div num (gens ! g)" "sc(g \<mapsto> (t, r div num (gens ! g)))"]
    by (simp del: fun_upd_apply)
qed

lemma all_gen_scaling_errors:
  "fst (all_gen_scaling gens dims sc) \<in> {None, Some ZeroDivisionError}"
proof (induction dims arbitrary: sc)
  case Nil
  then show ?case by simp
next
  case (Cons dm dims)
  show ?case
  proof (cases "gen_scaling gens (dim_generators dm) 1 (gens_scale gens (dim_generators dm)) sc")
    case (Pair r sc')
    show ?thesis
      using Pair Cons.IH[of sc']
        gen_scaling_errors[of gens "dim_generators dm" 1 "gens_scale gens (dim_generators dm)" sc]
      by (cases r) auto
  qed
qed

lemma prepare_errors:
  "fst (prepare s) \<in> {None, Some IndexError, Some KeyError, Some ValueError_not_adjacent,
     Some ValueError_alternate, Some AssertionError, Some ValueError_broadcast,
     Some ValueError_exclude_all, Some ZeroDivisionError}"
proof -
  let ?s1 = "produce_all s"
  obtain r1 d1 where e1: "run_excluders (generators ?s1) (axes_points ?s1) (dimensions ?s1) (excluders ?s1) = (r1, d1)"
    by fastforce
  obtain r2 d2 n2 where e2: "apply_masks d1 1 = (r2, d2, n2)"
    using prod_cases3 by blast
  obtain r3 d3 where e3: "dim_scaling d2 1 n2 = (r3, d3)" by fastforce
  obtain r4 sc where e4: "all_gen_scaling (generators ?s1) d3 (generator_dim_scaling ?s1) = (r4, sc)"
    by fastforce
  from e1 e2 e3 e4
    run_excluders_errors[of "generators ?s1" "axes_points ?s1" "dimensions ?s1" "excluders ?s1"]
    apply_masks_errors[of d1 1] dim_scaling_errors[of d2 1 n2]
    all_gen_scaling_errors[of "generators ?s1" d3 "generator_dim_scaling ?s1"]
  show ?thesis
    by (auto simp: prepare_def Let_def split: option.splits)
qed

subsection \<open>Where duplicate axes and nested compound generators are rejected\<close>

lemma distinct_length_card: "length xs \<noteq> card (set xs) \<longleftrightarrow> \<not> distinct xs"
  using distinct_card card_distinct by metis

text \<open>
  Claim C8, as stated: duplicate axis names and a compound generator given as a
  constituent are rejected by an error raised when \<open>prepare\<close> runs. Two generators on the
  same axis, and a compound generator among the constituents, are rejected by the
  constructor; \<open>prepare\<close> on the same generators raises nothing.
\<close>

theorem rejected_at_prepare_counterexample:
  "init [gen_A, gen_A2] [] [] = Inl ValueError_duplicate_axes \<and>
   fst (prepare (new_compound [gen_A, gen_A2] [] [])) = None \<and>
   init [gen_A, gen_nested] [] [] = Inl TypeError_nested \<and>
   fst (prepare (new_compound [gen_A, gen_nested] [] [])) = None"
proof -
  have "init [gen_A, gen_A2] [] [] = Inl ValueError_duplicate_axes"
    by (simp add: init_def gen_A_def gen_A2_def)
  moreover have "init [gen_A, gen_nested] [] [] = Inl TypeError_nested"
    by (simp add: init_def gen_nested_def)
  moreover have "fst (prepare (new_compound [gen_A, gen_A2] [] [])) = None"
    by code_simp
  moreover have "fst (prepare (new_compound [gen_A, gen_nested] [] [])) = None"
    by code_simp
  ultimately show ?thesis by simp
qed

text \<open>
  Claim C8, amended: the constructor rejects a compound generator among the constituents
  with the nesting error and, when there is none, duplicate axis names with the duplicate
  axes error; it accepts every other configuration. \<open>prepare\<close> raises neither error,
  whatever the state it runs on.
\<close>

theorem rejected_at_construction:
  "(list_ex is_compound gens \<longrightarrow> init gens excls muts = Inl TypeError_nested) \<and>
   (\<not> list_ex is_compound gens \<and> \<not> distinct (concat (map axes gens)) \<longrightarrow>
      init gens excls muts = Inl ValueError_duplicate_axes) \<and>
   (\<not> list_ex is_compound gens \<and> distinct (concat (map axes gens)) \<longrightarrow>
      init gens excls muts = Inr (new_compound gens excls muts)) \<and>
   fst (prepare s) \<noteq> Some TypeError_nested \<and>
   fst (prepare s) \<noteq> Some ValueError_duplicate_axes"
proof -
  have "init gens excls muts =
          (if list_ex is_compound gens then Inl TypeError_nested
           else if \<not> distinct (concat (map axes gens)) then Inl ValueError_duplicate_axes
           else Inr (new_compound gens excls muts))"
    unfolding init_def distinct_length_card ..
  then show ?thesis
    using prepare_errors[of s] by auto
qed

theorem rejected_at_construction_witness:
  "list_ex is_compound [gen_A, gen_nested] \<and>
   init [gen_A, gen_nested] [] [] = Inl TypeError_nested \<and>
   \<not> list_ex is_compound [gen_A, gen_A2] \<and> \<not> distinct (concat (map axes [gen_A, gen_A2])) \<and>
   init [gen_A, gen_A2] [] [] = Inl ValueError_duplicate_axes \<and>
   \<not> list_ex is_compound [gen_A, gen_B] \<and> distinct (concat (map axes [gen_A, gen_B])) \<and>
   init [gen_A, gen_B] [] [] = Inr (new_compound [gen_A, gen_B] [] []) \<and>
   fst (prepare (new_compound [gen_A, gen_A2] [] [])) \<noteq> Some ValueError_duplicate_axes"
proof -
  have h1: "list_ex is_compound [gen_A, gen_nested]"
    by (simp add: gen_nested_def)
  have h2: "\<not> list_ex is_compound [gen_A, gen_A2] \<and> \<not> distinct (concat (map axes [gen_A, gen_A2]))"
    by (simp add: gen_A_def gen_A2_def)
  have h3: "\<not> list_ex is_compound [gen_A, gen_B] \<and> distinct (concat (map axes [gen_A, gen_B]))"
    by (simp add: gen_A_def gen_B_def)
  show ?thesis
    using h1 h2 h3
      rejected_at_construction[of "[gen_A, gen_nested]" "[]" "[]" "new_compound [gen_A, gen_A2] [] []"]
      rejected_at_construction[of "[gen_A, gen_A2]" "[]" "[]" "new_compound [gen_A, gen_A2] [] []"]
      rejected_at_construction[of "[gen_A, gen_B]" "[]" "[]" "new_compound [gen_A, gen_A2] [] []"]
    by blast
qed

subsection \<open>The range check of get_point\<close>

text \<open>
  Claim C4 at a negative index. The generators \<open>gen_A\<close> (points 0, 1) and \<open>gen_B\<close> (points
  10, 20, 30) prepare to 6 points. \<open>get_point\<close> rejects the index 6 with the range error,
  but the indexes \<open>-1\<close> and \<open>-7\<close> are not rejected: both return the last point, that of
  index 5.
\<close>

theorem get_point_negative_index:
  "fst (prepare (new_compound [gen_A, gen_B] [] [])) = None \<and>
   self_num prepared_AB = Some 6 \<and>
   read_point [''a'', ''b''] (get_point prepared_AB 6) = Inl IndexError_out_of_range \<and>
   read_point [''a'', ''b''] (get_point prepared_AB 5) = Inr ([Some 1, Some 30], [1, 2]) \<and>
   read_point [''a'', ''b''] (get_point prepared_AB (- 1)) = Inr ([Some 1, Some 30], [1, 2]) \<and>
   read_point [''a'', ''b''] (get_point prepared_AB (- 7)) = Inr ([Some 1, Some 30], [1, 2])"
  by code_simp

subsection \<open>The configuration errors of an excluder\<close>

lemma run_excluders_append:
  "run_excluders gens ap dims (es @ es') =
     (case run_excluders gens ap dims es of
        (Some err, dims') \<Rightarrow> (Some err, dims')
      | (None, dims') \<Rightarrow> run_excluders gens ap dims' es')"
proof (induction es arbitrary: dims)
  case Nil
  then show ?case by simp
next
  case (Cons e es)
  show ?case
  proof (cases "excluder_step gens ap dims e")
    case (Pair r dims')
    then show ?thesis using Cons.IH[of dims'] by (cases r) simp_all
  qed
qed

lemma run_excluders_stops:
  assumes "run_excluders gens ap dims es = (None, dims')"
      and "excluder_step gens ap dims' e = (Some err, dims'')"
  shows "run_excluders gens ap dims (es @ e # es') = (Some err, dims'')"
  using assms by (simp add: run_excluders_append)

lemma prepare_excluder_error:
  assumes "run_excluders (generators s) (axes_points (produce_all s))
             (seed_dimensions (generators s)) (excluders s) = (Some err, dims)"
  shows "prepare s = (Some err, (produce_all s)\<lparr>dimensions := dims\<rparr>)"
  using assms by (simp add: prepare_def Let_def produce_all_def)

lemma excluder_step_gens_apart:
  assumes "find_gen gens (fst (scannables e)) = Inr g1"
      and "find_gen gens (snd (scannables e)) = Inr g2"
      and "1 < \<bar>int g1 - int g2\<bar>"
  shows "excluder_step gens ap dims e = (Some ValueError_not_adjacent, dims)"
  using assms by (auto simp: excluder_step_def)

lemma merge_step_checks:
  assumes "find_dim dims a1 = Inr d1" and "find_dim dims a2 = Inr d2"
  shows "dim_alternate (dims ! d1) \<noteq> dim_alternate (dims ! d2) \<Longrightarrow>
           merge_step gens ap dims e g1 g2 a1 a2 = (Some ValueError_alternate, dims)"
    and "dim_alternate (dims ! d1) = dim_alternate (dims ! d2) \<Longrightarrow> 1 < \<bar>int d1 - int d2\<bar> \<Longrightarrow>
           merge_step gens ap dims e g1 g2 a1 a2 = (Some ValueError_not_adjacent, dims)"
    and "dim_alternate (dims ! d1) = dim_alternate (dims ! d2) \<Longrightarrow> \<bar>int d1 - int d2\<bar> \<le> 1 \<Longrightarrow>
           fst (merge_step gens ap dims e g1 g2 a1 a2) \<in> {None, Some KeyError}"
proof -
  show "dim_alternate (dims ! d1) \<noteq> dim_alternate (dims ! d2) \<Longrightarrow>
           merge_step gens ap dims e g1 g2 a1 a2 = (Some ValueError_alternate, dims)"
    using assms by (simp add: merge_step_def)
  show "dim_alternate (dims ! d1) = dim_alternate (dims ! d2) \<Longrightarrow> 1 < \<bar>int d1 - int d2\<bar> \<Longrightarrow>
           merge_step gens ap dims e g1 g2 a1 a2 = (Some ValueError_not_adjacent, dims)"
    using assms by (auto simp: merge_step_def)
  have am: "\<And>ds d. fst (add_mask gens ap ds e d g1 g2 a1 a2) \<in> {None, Some KeyError}"
  proof -
    fix ds d
    show "fst (add_mask gens ap ds e d g1 g2 a1 a2) \<in> {None, Some KeyError}"
    proof (cases "add_mask gens ap ds e d g1 g2 a1 a2")
      case (Pair r ds')
      then show ?thesis
        by (cases r) (auto dest: add_mask_errors)
    qed
  qed
  show "dim_alternate (dims ! d1) = dim_alternate (dims ! d2) \<Longrightarrow> \<bar>int d1 - int d2\<bar> \<le> 1 \<Longrightarrow>
           fst (merge_step gens ap dims e g1 g2 a1 a2) \<in> {None, Some KeyError}"
    using assms am by (auto simp: merge_step_def)
qed

text \<open>
  Claim C7. Let the two axes of an excluder belong to the generators \<open>g1\<close> and \<open>g2\<close>. If
  the generators are more than one place apart in nesting order, the step of \<open>prepare\<close> for
  this excluder raises the adjacency error. Otherwise, with the axes held by the Dimensions
  \<open>d1\<close> and \<open>d2\<close>: if their alternate flags differ it raises the alternation error; if the
  flags agree and the Dimensions are more than one place apart it raises the adjacency
  error; if the flags agree and the Dimensions are the same or neighbours it raises neither.
  An error raised by the step of an excluder, the excluders before it having raised none,
  is the error \<open>prepare\<close> raises.
\<close>

theorem excluder_configuration_errors:
  assumes "find_gen gens (fst (scannables e)) = Inr g1"
      and "find_gen gens (snd (scannables e)) = Inr g2"
  shows "(1 < \<bar>int g1 - int g2\<bar> \<longrightarrow>
            excluder_step gens ap dims e = (Some ValueError_not_adjacent, dims)) \<and>
         (\<bar>int g1 - int g2\<bar> \<le> 1 \<and> find_dim dims (fst (scannables e)) = Inr d1 \<and>
          find_dim dims (snd (scannables e)) = Inr d2 \<longrightarrow>
            (dim_alternate (dims ! d1) \<noteq> dim_alternate (dims ! d2) \<longrightarrow>
               excluder_step gens ap dims e = (Some ValueError_alternate, dims)) \<and>
            (dim_alternate (dims ! d1) = dim_alternate (dims ! d2) \<and> 1 < \<bar>int d1 - int d2\<bar> \<longrightarrow>
               excluder_step gens ap dims e = (Some ValueError_not_adjacent, dims)) \<and>
            (dim_alternate (dims ! d1) = dim_alternate (dims ! d2) \<and> \<bar>int d1 - int d2\<bar> \<le> 1 \<longrightarrow>
               fst (excluder_step gens ap dims e) \<noteq> Some ValueError_not_adjacent \<and>
               fst (excluder_step gens ap dims e) \<noteq> Some ValueError_alternate)) \<and>
         (gens = generators s \<and> ap = axes_points (produce_all s) \<and>
          excluders s = es @ e # es' \<and>
          run_excluders gens ap (seed_dimensions gens) es = (None, dims) \<and>
          excluder_step gens ap dims e = (Some err, dims') \<longrightarrow>
            prepare s = (Some err, (produce_all s)\<lparr>dimensions := dims'\<rparr>))"
proof (intro conjI impI)
  show "excluder_step gens ap dims e = (Some ValueError_not_adjacent, dims)"
    if "1 < \<bar>int g1 - int g2\<bar>"
    using excluder_step_gens_apart[OF assms that] .
next
  assume h: "\<bar>int g1 - int g2\<bar> \<le> 1 \<and> find_dim dims (fst (scannables e)) = Inr d1 \<and>
          find_dim dims (snd (scannables e)) = Inr d2"
  then have near: "\<not> (int g1 - int g2 < - 1 \<or> int g1 - int g2 > 1)" by auto
  show "excluder_step gens ap dims e = (Some ValueError_alternate, dims)"
    if "dim_alternate (dims ! d1) \<noteq> dim_alternate (dims ! d2)"
  proof (cases "int g1 - int g2 = 1")
    case True
    then show ?thesis
      using assms near h that merge_step_checks(1)[of dims "snd (scannables e)" d2 "fst (scannables e)" d1]
      by (simp add: excluder_step_def)
  next
    case False
    then show ?thesis
      using assms near h that merge_step_checks(1)[of dims "fst (scannables e)" d1 "snd (scannables e)" d2]
      by (simp add: excluder_step_def)
  qed
  show "excluder_step gens ap dims e = (Some ValueError_not_adjacent, dims)"
    if "dim_alternate (dims ! d1) = dim_alternate (dims ! d2) \<and> 1 < \<bar>int d1 - int d2\<bar>"
  proof (cases "int g1 - int g2 = 1")
    case True
    have "1 < \<bar>int d2 - int d1\<bar>" using that by linarith
    then show ?thesis
      using True assms near h that merge_step_checks(2)[of dims "snd (scannables e)" d2 "fst (scannables e)" d1]
      by (simp add: excluder_step_def)
  next
    case False
    then show ?thesis
      using assms near h that merge_step_checks(2)[of dims "fst (scannables e)" d1 "snd (scannables e)" d2]
      by (simp add: excluder_step_def)
  qed
  have ok: "fst (excluder_step gens ap dims e) \<in> {None, Some KeyError}"
    if ok: "dim_alternate (dims ! d1) = dim_alternate (dims ! d2) \<and> \<bar>int d1 - int d2\<bar> \<le> 1"
  proof (cases "int g1 - int g2 = 1")
    case True
    have "\<bar>int d2 - int d1\<bar> \<le> 1" using that by linarith
    then show ?thesis
      using True assms near h that
        merge_step_checks(3)[of dims "snd (scannables e)" d2 "fst (scannables e)" d1 gens ap e g2 g1]
      by (simp add: excluder_step_def)
  next
    case False
    then show ?thesis
      using assms near h that
        merge_step_checks(3)[of dims "fst (scannables e)" d1 "snd (scannables e)" d2 gens ap e g1 g2]
      by (simp add: excluder_step_def)
  qed
  show "fst (excluder_step gens ap dims e) \<noteq> Some ValueError_not_adjacent"
    if "dim_alternate (dims ! d1) = dim_alternate (dims ! d2) \<and> \<bar>int d1 - int d2\<bar> \<le> 1"
    using ok[OF that] by auto
  show "fst (excluder_step gens ap dims e) \<noteq> Some ValueError_alternate"
    if "dim_alternate (dims ! d1) = dim_alternate (dims ! d2) \<and> \<bar>int d1 - int d2\<bar> \<le> 1"
    using ok[OF that] by auto
next
  assume h: "gens = generators s \<and> ap = axes_points (produce_all s) \<and>
          excluders s = es @ e # es' \<and>
          run_excluders gens ap (seed_dimensions gens) es = (None, dims) \<and>
          excluder_step gens ap dims e = (Some err, dims')"
  then have eqs: "gens = generators s" "ap = axes_points (produce_all s)"
      "excluders s = es @ e # es'"
    and run: "run_excluders gens ap (seed_dimensions gens) es = (None, dims)"
    and step: "excluder_step gens ap dims e = (Some err, dims')"
    by blast+
  have "run_excluders gens ap (seed_dimensions gens) (es @ e # es') = (Some err, dims')"
    using run step by (rule run_excluders_stops)
  then have "run_excluders (generators s) (axes_points (produce_all s))
               (seed_dimensions (generators s)) (excluders s) = (Some err, dims')"
    unfolding eqs .
  then show "prepare s = (Some err, (produce_all s)\<lparr>dimensions := dims'\<rparr>)"
    by (rule prepare_excluder_error)
qed


theorem excluder_configuration_errors_witness:
  "find_gen [gen_A, gen_B, gen_C] (fst (scannables excluder_ac)) = Inr 0 \<and>
   find_gen [gen_A, gen_B, gen_C] (snd (scannables excluder_ac)) = Inr 2 \<and>
   1 < \<bar>int 0 - int 2\<bar> \<and>
   fst (prepare (new_compound [gen_A, gen_B, gen_C] [excluder_ac] [])) =
     Some ValueError_not_adjacent \<and>
   find_gen [gen_A, gen_B_alt] (fst (scannables excluder_ab)) = Inr 0 \<and>
   find_gen [gen_A, gen_B_alt] (snd (scannables excluder_ab)) = Inr 1 \<and>
   find_dim (seed_dimensions [gen_A, gen_B_alt]) (fst (scannables excluder_ab)) = Inr 0 \<and>
   find_dim (seed_dimensions [gen_A, gen_B_alt]) (snd (scannables excluder_ab)) = Inr 1 \<and>
   dim_alternate (seed_dimensions [gen_A, gen_B_alt] ! 0) \<noteq>
     dim_alternate (seed_dimensions [gen_A, gen_B_alt] ! 1) \<and>
   fst (prepare (new_compound [gen_A, gen_B_alt] [excluder_ab] [])) = Some ValueError_alternate \<and>
   find_dim apart_dimensions (fst (scannables excluder_ab)) = Inr 0 \<and>
   find_dim apart_dimensions (snd (scannables excluder_ab)) = Inr 2 \<and>
   dim_alternate (apart_dimensions ! 0) = dim_alternate (apart_dimensions ! 2) \<and>
   fst (excluder_step [gen_A, gen_B] Map.empty apart_dimensions excluder_ab) =
     Some ValueError_not_adjacent \<and>
   find_dim (seed_dimensions [gen_A, gen_B]) (fst (scannables excluder_ab)) = Inr 0 \<and>
   find_dim (seed_dimensions [gen_A, gen_B]) (snd (scannables excluder_ab)) = Inr 1 \<and>
   dim_alternate (seed_dimensions [gen_A, gen_B] ! 0) =
     dim_alternate (seed_dimensions [gen_A, gen_B] ! 1) \<and>
   fst (excluder_step [gen_A, gen_B] Map.empty (seed_dimensions [gen_A, gen_B]) excluder_ab) \<noteq>
     Some ValueError_not_adjacent \<and>
   fst (excluder_step [gen_A, gen_B] Map.empty (seed_dimensions [gen_A, gen_B]) excluder_ab) \<noteq>
     Some ValueError_alternate"
proof -
  let ?s3 = "new_compound [gen_A, gen_B, gen_C] [excluder_ac] []"
  let ?s2 = "new_compound [gen_A, gen_B_alt] [excluder_ab] []"
  have g3: "find_gen [gen_A, gen_B, gen_C] (fst (scannables excluder_ac)) = Inr 0"
    "find_gen [gen_A, gen_B, gen_C] (snd (scannables excluder_ac)) = Inr 2"
    by code_simp+
  have ga: "find_gen [gen_A, gen_B_alt] (fst (scannables excluder_ab)) = Inr 0"
    "find_gen [gen_A, gen_B_alt] (snd (scannables excluder_ab)) = Inr 1"
    by code_simp+
  have da: "find_dim (seed_dimensions [gen_A, gen_B_alt]) (fst (scannables excluder_ab)) = Inr 0"
    "find_dim (seed_dimensions [gen_A, gen_B_alt]) (snd (scannables excluder_ab)) = Inr 1"
    "dim_alternate (seed_dimensions [gen_A, gen_B_alt] ! 0) \<noteq>
       dim_alternate (seed_dimensions [gen_A, gen_B_alt] ! 1)"
    by code_simp+
  have gb: "find_gen [gen_A, gen_B] (fst (scannables excluder_ab)) = Inr 0"
    "find_gen [gen_A, gen_B] (snd (scannables excluder_ab)) = Inr 1"
    by code_simp+
  have dp: "find_dim apart_dimensions (fst (scannables excluder_ab)) = Inr 0"
    "find_dim apart_dimensions (snd (scannables excluder_ab)) = Inr 2"
    "dim_alternate (apart_dimensions ! 0) = dim_alternate (apart_dimensions ! 2)"
    by code_simp+
  have db: "find_dim (seed_dimensions [gen_A, gen_B]) (fst (scannables excluder_ab)) = Inr 0"
    "find_dim (seed_dimensions [gen_A, gen_B]) (snd (scannables excluder_ab)) = Inr 1"
    "dim_alternate (seed_dimensions [gen_A, gen_B] ! 0) =
       dim_alternate (seed_dimensions [gen_A, gen_B] ! 1)"
    by code_simp+
  have s3: "generators ?s3 = [gen_A, gen_B, gen_C]" "excluders ?s3 = [] @ excluder_ac # []"
    and s2: "generators ?s2 = [gen_A, gen_B_alt]" "excluders ?s2 = [] @ excluder_ab # []"
    by (simp_all add: new_compound_def)
  note t3 = excluder_configuration_errors[OF g3,
      where ap = "axes_points (produce_all ?s3)" and dims = "seed_dimensions [gen_A, gen_B, gen_C]"
        and s = ?s3 and es = "[]" and es' = "[]" and err = ValueError_not_adjacent
        and dims' = "seed_dimensions [gen_A, gen_B, gen_C]" and ?d1.0 = 0 and ?d2.0 = 0]
  note t2 = excluder_configuration_errors[OF ga,
      where ap = "axes_points (produce_all ?s2)" and dims = "seed_dimensions [gen_A, gen_B_alt]"
        and s = ?s2 and es = "[]" and es' = "[]" and err = ValueError_alternate
        and dims' = "seed_dimensions [gen_A, gen_B_alt]" and ?d1.0 = 0 and ?d2.0 = 1]
  note tp = excluder_configuration_errors[OF gb,
      where ap = Map.empty and dims = apart_dimensions
        and s = ?s2 and es = "[]" and es' = "[]" and err = ValueError_alternate
        and dims' = "[]" and ?d1.0 = 0 and ?d2.0 = 2]
  note tb = excluder_configuration_errors[OF gb,
      where ap = Map.empty and dims = "seed_dimensions [gen_A, gen_B]"
        and s = ?s2 and es = "[]" and es' = "[]" and err = ValueError_alternate
        and dims' = "[]" and ?d1.0 = 0 and ?d2.0 = 1]
  have far: "1 < \<bar>int 0 - int 2\<bar>" by simp
  have e3: "fst (prepare ?s3) = Some ValueError_not_adjacent"
    using t3 s3 far by simp
  have e2: "fst (prepare ?s2) = Some ValueError_alternate"
    using t2 s2 da by simp
  have ep: "fst (excluder_step [gen_A, gen_B] Map.empty apart_dimensions excluder_ab) =
     Some ValueError_not_adjacent"
    using tp dp by simp
  have eb: "fst (excluder_step [gen_A, gen_B] Map.empty (seed_dimensions [gen_A, gen_B]) excluder_ab) \<noteq>
     Some ValueError_not_adjacent"
    "fst (excluder_step [gen_A, gen_B] Map.empty (seed_dimensions [gen_A, gen_B]) excluder_ab) \<noteq>
     Some ValueError_alternate"
    using tb db by simp_all
  show ?thesis
    using g3 far e3 ga da e2 dp ep db eb by blast
qed

subsection \<open>numpy on lists\<close>

lemma np_repeat_length: "length (np_repeat xs n) = length xs * n"
  by (induction xs) (simp_all add: np_repeat_def)

lemma np_tile_length: "length (np_tile xs n) = n * length xs"
  by (induction n) (simp_all add: np_tile_def)

lemma np_flatnonzero_all: "np_flatnonzero (replicate n True) = [0..<n]"
  unfolding np_flatnonzero_def
  by (rule trans[OF filter_cong[OF refl, of _ _ "\<lambda>_. True"]]) auto

subsection \<open>Tile factors are whole numbers of halves\<close>

lemma half_integral_mult: "half_integral t \<Longrightarrow> half_integral (t * of_nat n)"
proof -
  assume "half_integral t"
  then obtain k :: nat where "t * 2 = of_nat k" by (auto simp: half_integral_def)
  then have "t * of_nat n * 2 = of_nat (k * n)" by (simp add: mult.commute mult.left_commute)
  then show ?thesis unfolding half_integral_def by blast
qed

lemma frac_int_half: "frac (of_int q + 1 / 2 :: rat) = 1 / 2" "\<lfloor>of_int q + 1 / 2 :: rat\<rfloor> = q"
proof -
  show fl: "\<lfloor>of_int q + 1 / 2 :: rat\<rfloor> = q" by (simp add: floor_unique)
  show "frac (of_int q + 1 / 2 :: rat) = 1 / 2" unfolding frac_def fl by simp
qed

lemma frac_nat_half: "frac (of_nat q + 1 / 2 :: rat) = 1 / 2" "\<lfloor>of_nat q + 1 / 2 :: rat\<rfloor> = int q"
  using frac_int_half[of "int q"] by simp_all

lemma half_integral_start: "half_integral (if b then 1 / 2 else 1)"
proof (cases b)
  case True
  have "(1 / 2 :: rat) * 2 = of_nat 1" by simp
  then have "half_integral (1 / 2)" unfolding half_integral_def by (rule exI)
  then show ?thesis using True by simp
next
  case False
  have "(1 :: rat) * 2 = of_nat 2" by simp
  then have "half_integral 1" unfolding half_integral_def by (rule exI)
  then show ?thesis using False by simp
qed

lemma mask_scaling_half_integral:
  "half_integral t \<Longrightarrow> half_integral (fst (mask_scaling gens a1 a2 gs t r f))"
  by (induction gs arbitrary: t r f) (simp_all add: half_integral_mult)

lemma half_integral_cases:
  assumes "half_integral t"
  shows "0 \<le> t" and "frac t = 0 \<or> frac t = 1 / 2"
proof -
  from assms obtain k :: nat where k: "t * 2 = of_nat k" by (auto simp: half_integral_def)
  then have t: "t = of_nat k / 2" by simp
  show "0 \<le> t" unfolding t by simp
  show "frac t = 0 \<or> frac t = 1 / 2"
  proof (cases "even k")
    case True
    then obtain q where "k = 2 * q" by (auto elim: evenE)
    then have "t = of_int (int q)" unfolding t by simp
    then show ?thesis by (metis frac_of_int)
  next
    case False
    then obtain q where "k = 2 * q + 1" by (auto elim: oddE)
    then have "t = of_nat q + 1 / 2" unfolding t by (simp add: field_simps)
    then show ?thesis by (simp add: frac_nat_half)
  qed
qed

lemma expand_mask_spec:
  assumes "half_integral (m_tile m)"
  shows "expand_mask m = spec_expanded m"
proof (cases "frac (m_tile m) = 0")
  case True
  have "frac (m_tile m) \<noteq> 1 / 2" unfolding True by simp
  with True show ?thesis
    by (simp add: expand_mask_def spec_expanded_def np_repeat_def np_tile_def Let_def
        del: frac_eq_0_iff)
next
  case False
  then have "frac (m_tile m) = 1 / 2" using half_integral_cases(2)[OF assms] by blast
  with False show ?thesis
    by (simp add: expand_mask_def spec_expanded_def np_repeat_def np_tile_def np_append_def
        Let_def del: frac_eq_0_iff)
qed

lemma expand_mask_length:
  assumes "assert_consistent m n" and "half_integral (m_tile m)"
  shows "length (expand_mask m) = n"
proof -
  let ?L = "length (m_mask m) * m_repeat m"
  from assms(2) obtain k :: nat where k: "m_tile m * 2 = of_nat k" by (auto simp: half_integral_def)
  from assms(1) have "of_nat ?L * m_tile m = (of_nat n :: rat)"
    by (simp add: assert_consistent_def)
  then have "of_nat ?L * (m_tile m * 2) = (of_nat (2 * n) :: rat)" by simp
  then have "(of_nat (?L * k) :: rat) = of_nat (2 * n)" unfolding k by simp
  then have Lk: "?L * k = 2 * n" using of_nat_eq_iff by blast
  show ?thesis
  proof (cases "even k")
    case True
    then obtain q where q: "k = 2 * q" by (auto elim: evenE)
    then have t: "m_tile m = of_int (int q)" using k by simp
    have "frac (m_tile m) = 0" unfolding t by (metis frac_of_int)
    moreover have "nat \<lfloor>m_tile m\<rfloor> = q" unfolding t by simp
    moreover have "?L * q = n" using Lk q by simp
    ultimately show ?thesis
      by (simp add: expand_mask_def np_tile_length np_repeat_length Let_def mult.commute)
  next
    case False
    then obtain q where q: "k = 2 * q + 1" by (auto elim: oddE)
    then have t: "m_tile m = of_nat q + 1 / 2" using k by (simp add: field_simps)
    have f: "frac (m_tile m) \<noteq> 0" unfolding t frac_nat_half by simp
    have fl: "nat \<lfloor>m_tile m\<rfloor> = q" unfolding t frac_nat_half by simp
    have "even ?L" using Lk False by (metis dvd_triv_left even_mult_iff)
    then obtain h where h: "?L = 2 * h" by (auto elim: evenE)
    then have n: "n = q * ?L + h" using Lk q by (simp add: algebra_simps)
    show ?thesis
      using f fl h n
      by (simp add: expand_mask_def np_tile_length np_repeat_length np_append_def Let_def)
  qed
qed

subsection \<open>The excluders keep the tile factors whole numbers of halves\<close>

lemma masks_half_integral_seed: "masks_half_integral (seed_dimensions gens)"
  by (simp add: masks_half_integral_def seed_dimensions_def seed_dimension_def)

lemma masks_half_integral_nth:
  "masks_half_integral dims \<Longrightarrow> d < length dims \<Longrightarrow> m \<in> set (dim_masks (dims ! d)) \<Longrightarrow>
     half_integral (m_tile m)"
  unfolding masks_half_integral_def by (meson nth_mem)

lemma masks_half_integral_update:
  assumes "masks_half_integral dims"
      and "\<And>m. m \<in> set (dim_masks dm) \<Longrightarrow> half_integral (m_tile m)"
  shows "masks_half_integral (dims[d := dm])"
  unfolding masks_half_integral_def
proof (intro ballI)
  fix x m assume x: "x \<in> set (dims[d := dm])" and m: "m \<in> set (dim_masks x)"
  from x have "x = dm \<or> x \<in> set dims" by (meson in_set_insert insert_iff set_update_subset_insert subsetD)
  then show "half_integral (m_tile m)"
    using assms m unfolding masks_half_integral_def by blast
qed

lemma masks_half_integral_sub:
  "masks_half_integral dims \<Longrightarrow> set dims' \<subseteq> set dims \<Longrightarrow> masks_half_integral dims'"
  unfolding masks_half_integral_def by blast

lemma masks_half_integral_merge:
  assumes "masks_half_integral dims" and "d1 < length dims" and "d2 < length dims"
  shows "masks_half_integral (merge_dims gens dims d1 d2)"
proof -
  let ?merged = "(dims ! d1)\<lparr>dim_masks :=
       map (\<lambda>m. m\<lparr>m_repeat := m_repeat m * gens_scale gens (dim_generators (dims ! d2))\<rparr>)
         (dim_masks (dims ! d1)) @
       map (\<lambda>m. m\<lparr>m_tile := m_tile m * of_nat (gens_scale gens (dim_generators (dims ! d1)))\<rparr>)
         (dim_masks (dims ! d2)),
     dim_axes := dim_axes (dims ! d1) @ dim_axes (dims ! d2),
     dim_generators := dim_generators (dims ! d1) @ dim_generators (dims ! d2),
     dim_size := dim_size (dims ! d1) * dim_size (dims ! d2)\<rparr>"
  have "\<And>m. m \<in> set (dim_masks ?merged) \<Longrightarrow> half_integral (m_tile m)"
    using masks_half_integral_nth[OF assms(1) assms(2)] masks_half_integral_nth[OF assms(1) assms(3)]
    by (auto simp: half_integral_mult)
  then have upd: "masks_half_integral (dims[d1 := ?merged])"
    by (rule masks_half_integral_update[OF assms(1)])
  have "set (take d2 (dims[d1 := ?merged]) @ drop (Suc d2) (dims[d1 := ?merged]))
          \<subseteq> set (dims[d1 := ?merged])"
    by (auto dest: in_set_takeD in_set_dropD)
  from masks_half_integral_sub[OF upd this] show ?thesis
    by (simp add: merge_dims_def Let_def)
qed

lemma length_merge_dims:
  "d1 < d2 \<Longrightarrow> d2 < length dims \<Longrightarrow> length (merge_dims gens dims d1 d2) = length dims - 1"
  by (simp add: merge_dims_def Let_def)

lemma find_dim_less: "find_dim dims a = Inr d \<Longrightarrow> d < length dims"
proof -
  assume a: "find_dim dims a = Inr d"
  then obtain rest where "filter (\<lambda>i. a \<in> set (dim_axes (dims ! i))) [0..<length dims] = d # rest"
    by (auto simp: find_dim_def split: list.splits)
  then have "d \<in> set (filter (\<lambda>i. a \<in> set (dim_axes (dims ! i))) [0..<length dims])" by simp
  then show ?thesis by simp
qed

lemma masks_half_integral_add_mask:
  assumes "masks_half_integral dims" and "d < length dims"
      and "add_mask gens ap dims e d g1 g2 a1 a2 = (r, dims')"
  shows "masks_half_integral dims'"
proof (cases "ap a1")
  case None
  with assms show ?thesis by (simp add: add_mask_def)
next
  case (Some p1)
  show ?thesis
  proof (cases "ap a2")
    case None
    with Some assms show ?thesis by (simp add: add_mask_def)
  next
    case (Some p2)
    obtain db q1 q2 where rp: "region_points (g1 = g2) (dim_alternate (dims ! d))
          (num (gens ! g1)) (num (gens ! g2)) p1 p2 = (db, q1, q2)"
      using prod_cases3 by blast
    obtain t rr where ms: "mask_scaling gens a1 a2 (dim_generators (dims ! d))
         (if db then 1 / 2 else 1) 1 False = (t, rr)" by fastforce
    have ht: "half_integral t"
      using mask_scaling_half_integral[OF half_integral_start, of gens a1 a2 "dim_generators (dims ! d)" db 1 False] ms
      by simp
    have "dims' = dims[d := (dims ! d)\<lparr>dim_masks := dim_masks (dims ! d) @
            [\<lparr>m_repeat = rr, m_tile = t,
              m_mask = (if a1 = fst (scannables e) then create_mask e q1 q2 else create_mask e q2 q1)\<rparr>]\<rparr>]"
      using assms(3) \<open>ap a1 = Some p1\<close> Some rp ms by (simp add: add_mask_def Let_def)
    moreover have "masks_half_integral (dims[d := (dims ! d)\<lparr>dim_masks := dim_masks (dims ! d) @
            [\<lparr>m_repeat = rr, m_tile = t,
              m_mask = (if a1 = fst (scannables e) then create_mask e q1 q2 else create_mask e q2 q1)\<rparr>]\<rparr>])"
      by (rule masks_half_integral_update[OF assms(1)])
         (use ht masks_half_integral_nth[OF assms(1) assms(2)] in auto)
    ultimately show ?thesis by simp
  qed
qed

lemma masks_half_integral_merge_step:
  assumes "masks_half_integral dims"
      and "merge_step gens ap dims e g1 g2 a1 a2 = (r, dims')"
  shows "masks_half_integral dims'"
proof (cases "find_dim dims a1")
  case (Inl err)
  with assms show ?thesis by (simp add: merge_step_def)
next
  case (Inr d1)
  note d1 = this
  show ?thesis
  proof (cases "find_dim dims a2")
    case (Inl err)
    with d1 assms show ?thesis by (simp add: merge_step_def)
  next
    case (Inr d2)
    have l1: "d1 < length dims" and l2: "d2 < length dims"
      using d1 Inr by (auto dest: find_dim_less)
    consider (err) "dims' = dims"
      | (swap) "int d1 - int d2 = 1" "add_mask gens ap (merge_dims gens dims d2 d1) e d2 g1 g2 a1 a2 = (r, dims')"
      | (merge) "int d1 - int d2 = - 1" "add_mask gens ap (merge_dims gens dims d1 d2) e d1 g1 g2 a1 a2 = (r, dims')"
      | (same) "add_mask gens ap dims e d1 g1 g2 a1 a2 = (r, dims')"
      using assms(2) d1 Inr by (auto simp: merge_step_def split: if_splits)
    then show ?thesis
    proof cases
      case err
      with assms show ?thesis by simp
    next
      case swap
      then have "d2 < d1" by linarith
      then have "d2 < length (merge_dims gens dims d2 d1)"
        using l1 by (simp add: length_merge_dims)
      then show ?thesis
        using masks_half_integral_add_mask[OF masks_half_integral_merge[OF assms(1) l2 l1] _ swap(2)]
        by simp
    next
      case merge
      then have "d1 < d2" by linarith
      then have "d1 < length (merge_dims gens dims d1 d2)"
        using l2 by (simp add: length_merge_dims)
      then show ?thesis
        using masks_half_integral_add_mask[OF masks_half_integral_merge[OF assms(1) l1 l2] _ merge(2)]
        by simp
    next
      case same
      then show ?thesis
        using masks_half_integral_add_mask[OF assms(1) l1] by simp
    qed
  qed
qed

lemma masks_half_integral_step:
  assumes "masks_half_integral dims"
      and "excluder_step gens ap dims e = (r, dims')"
  shows "masks_half_integral dims'"
proof -
  consider (err) "dims' = dims"
    | (m) g1 g2 a1 a2 where "merge_step gens ap dims e g1 g2 a1 a2 = (r, dims')"
    using assms(2) by (auto simp: excluder_step_def split: sum.splits if_splits)
  then show ?thesis
    using assms(1) masks_half_integral_merge_step by cases auto
qed

lemma masks_half_integral_run:
  assumes "masks_half_integral dims"
      and "run_excluders gens ap dims es = (r, dims')"
  shows "masks_half_integral dims'"
  using assms
proof (induction es arbitrary: dims)
  case Nil
  then show ?case by simp
next
  case (Cons e es)
  obtain r1 dims1 where st: "excluder_step gens ap dims e = (r1, dims1)" by fastforce
  have h1: "masks_half_integral dims1"
    using masks_half_integral_step[OF Cons.prems(1) st] .
  show ?case
  proof (cases r1)
    case None
    with st Cons.prems(2) have "run_excluders gens ap dims1 es = (r, dims')" by simp
    from Cons.IH[OF h1 this] show ?thesis .
  next
    case (Some err)
    with st Cons.prems(2) have "dims' = dims1" by simp
    with h1 show ?thesis by simp
  qed
qed

subsection \<open>The combined mask of a Dimension\<close>

lemma np_iand_equal_length:
  "length expanded = length msk \<Longrightarrow> np_iand msk expanded = Inr (map2 (\<and>) msk expanded)"
  by (simp add: np_iand_def)

lemma combine_masks_spec:
  assumes "\<And>m. m \<in> set ms \<Longrightarrow> half_integral (m_tile m)"
      and "combine_masks msk ms = Inr r"
  shows "r = map (\<lambda>i. msk ! i \<and> list_all (\<lambda>m. spec_expanded m ! i) ms) [0..<length msk]"
  using assms
proof (induction ms arbitrary: msk)
  case Nil
  then show ?case by (simp add: map_nth)
next
  case (Cons m ms)
  from Cons.prems(2) have ac: "assert_consistent m (length msk)"
    by (simp split: if_splits)
  have hm: "half_integral (m_tile m)" using Cons.prems(1) by simp
  have len: "length (expand_mask m) = length msk"
    using expand_mask_length[OF ac hm] .
  let ?msk' = "map2 (\<and>) msk (expand_mask m)"
  have "combine_masks ?msk' ms = Inr r"
    using Cons.prems(2) ac by (simp add: np_iand_equal_length[OF len])
  from Cons.IH[OF _ this] Cons.prems(1)
  have r: "r = map (\<lambda>i. ?msk' ! i \<and> list_all (\<lambda>m. spec_expanded m ! i) ms) [0..<length ?msk']"
    by simp
  have "length ?msk' = length msk" using len by simp
  moreover have "\<And>i. i < length msk \<Longrightarrow> ?msk' ! i = (msk ! i \<and> spec_expanded m ! i)"
    using len by (simp add: expand_mask_spec[OF hm])
  ultimately show ?case
    unfolding r by (auto simp: conj_assoc)
qed

lemma combine_masks_consistent:
  assumes "\<And>m. m \<in> set ms \<Longrightarrow> half_integral (m_tile m)"
      and "\<And>m. m \<in> set ms \<Longrightarrow> assert_consistent m (length msk)"
  shows "\<exists>r. combine_masks msk ms = Inr r"
  using assms
proof (induction ms arbitrary: msk)
  case Nil
  then show ?case by simp
next
  case (Cons m ms)
  have ac: "assert_consistent m (length msk)" using Cons.prems(2) by simp
  have hm: "half_integral (m_tile m)" using Cons.prems(1) by simp
  have len: "length (expand_mask m) = length msk"
    using expand_mask_length[OF ac hm] .
  let ?msk' = "map2 (\<and>) msk (expand_mask m)"
  have "length ?msk' = length msk" using len by simp
  then have "\<exists>r. combine_masks ?msk' ms = Inr r"
    using Cons.prems by (intro Cons.IH) simp_all
  then show ?case using ac by (simp add: np_iand_equal_length[OF len])
qed

lemma full_mask_spec:
  assumes "\<And>m. m \<in> set (dim_masks d) \<Longrightarrow> half_integral (m_tile m)"
      and "full_mask d = Inr r"
  shows "r = spec_combined d"
  using combine_masks_spec[where ms = "dim_masks d" and msk = "replicate (dim_size d) True" and r = r]
    assms
  by (simp add: full_mask_def spec_combined_def)

lemma np_flatnonzero_spec: "np_flatnonzero (spec_combined d) = spec_indices d"
  by (simp add: np_flatnonzero_def spec_indices_def spec_combined_def)

lemma apply_masks_success:
  assumes "masks_half_integral dims"
      and "apply_masks dims r = (None, dims', r')"
  shows "dims' = map masked_dimension dims \<and>
         r' = r * prod_list (map (\<lambda>d. length (spec_indices d)) dims) \<and>
         (\<forall>d \<in> set dims. spec_indices d \<noteq> [])"
  using assms
proof (induction dims arbitrary: r dims' r')
  case Nil
  then show ?case by simp
next
  case (Cons d dims)
  have hd: "\<And>m. m \<in> set (dim_masks d) \<Longrightarrow> half_integral (m_tile m)"
    and htl: "masks_half_integral dims"
    using Cons.prems(1) by (auto simp: masks_half_integral_def)
  from Cons.prems(2) obtain msk where fm: "full_mask d = Inr msk"
    by (auto simp: full_mask_def split: sum.splits)
  have msk: "msk = spec_combined d" using full_mask_spec[OF hd fm] by simp
  have fm': "combine_masks (replicate (dim_size d) True) (dim_masks d) = Inr (spec_combined d)"
    using fm msk by (simp add: full_mask_def)
  obtain e ds rr where rec: "apply_masks dims (r * length (spec_indices d)) = (e, ds, rr)"
    using prod_cases3 by blast
  from Cons.prems(2) have ne: "spec_indices d \<noteq> []"
    by (auto simp: fm' np_flatnonzero_spec Let_def split: if_splits)
  from Cons.prems(2) have e: "e = None" and ds: "dims' = masked_dimension d # ds" and rr: "r' = rr"
    using ne rec by (simp_all add: fm' np_flatnonzero_spec Let_def masked_dimension_def)
  note ih = Cons.IH[OF htl rec[unfolded e]]
  show ?case using ih ds rr ne by (simp add: mult.assoc)
qed

lemma dim_scaling_frame:
  assumes "dim_scaling dims t r = (e, dims')"
  shows "map dim_mask dims' = map dim_mask dims \<and> map dim_indicies dims' = map dim_indicies dims \<and>
         map dim_masks dims' = map dim_masks dims \<and> map dim_size dims' = map dim_size dims \<and>
         map dim_generators dims' = map dim_generators dims \<and>
         map dim_alternate dims' = map dim_alternate dims \<and> map dim_axes dims' = map dim_axes dims"
  using assms
proof (induction dims arbitrary: t r e dims')
  case Nil
  then show ?case by simp
next
  case (Cons d dims)
  show ?case
  proof (cases "dim_indicies d")
    case None
    with Cons.prems show ?thesis by auto
  next
    case (Some ind)
    show ?thesis
    proof (cases "length ind = 0")
      case True
      with Some Cons.prems show ?thesis by auto
    next
      case False
      obtain e1 ds where rec: "dim_scaling dims (t * length ind) (r div length ind) = (e1, ds)"
        by fastforce
      from Cons.prems Some False rec
      have "dims' = d\<lparr>dim_tile := t, dim_repeat := r div length ind\<rparr> # ds" by auto
      with Cons.IH[OF rec] show ?thesis by simp
    qed
  qed
qed

subsection \<open>The phases of a successful prepare\<close>

lemma produce_all_fields [simp]:
  "generators (produce_all s) = generators s"
  "excluders (produce_all s) = excluders s"
  "mutators (produce_all s) = mutators s"
  "dimensions (produce_all s) = seed_dimensions (generators s)"
  "generator_dim_scaling (produce_all s) = generator_dim_scaling s"
  by (simp_all add: produce_all_def)

lemma prepare_phases:
  assumes "fst (prepare s) = None"
  obtains dims1 dims2 dims3 rep sc where
    "run_excluders (generators s) (axes_points (produce_all s))
       (seed_dimensions (generators s)) (excluders s) = (None, dims1)"
    "apply_masks dims1 1 = (None, dims2, rep)"
    "dim_scaling dims2 1 rep = (None, dims3)"
    "all_gen_scaling (generators s) dims3 (generator_dim_scaling s) = (None, sc)"
    "snd (prepare s) = (produce_all s)\<lparr>dimensions := dims3, self_num := Some rep,
                                        generator_dim_scaling := sc\<rparr>"
proof -
  obtain r1 d1 where e1: "run_excluders (generators s) (axes_points (produce_all s))
       (seed_dimensions (generators s)) (excluders s) = (r1, d1)" by fastforce
  obtain r2 d2 n2 where e2: "apply_masks d1 1 = (r2, d2, n2)"
    using prod_cases3 by blast
  obtain r3 d3 where e3: "dim_scaling d2 1 n2 = (r3, d3)" by fastforce
  obtain r4 sc where e4: "all_gen_scaling (generators s) d3 (generator_dim_scaling s) = (r4, sc)"
    by fastforce
  have n1: "r1 = None" using assms e1 by (cases r1) (simp_all add: prepare_def Let_def)
  have n2: "r2 = None" using assms e1 e2 n1 by (cases r2) (simp_all add: prepare_def Let_def)
  have n3: "r3 = None" using assms e1 e2 e3 n1 n2 by (cases r3) (simp_all add: prepare_def Let_def)
  have n4: "r4 = None" using assms e1 e2 e3 e4 n1 n2 n3 by (simp add: prepare_def Let_def)
  have "snd (prepare s) = (produce_all s)\<lparr>dimensions := d3, self_num := Some n2,
                                        generator_dim_scaling := sc\<rparr>"
    using e1 e2 e3 e4 n1 n2 n3 n4 by (simp add: prepare_def Let_def)
  then show ?thesis
    using that[of d1 d2 n2 d3 sc] e1 e2 e3 e4 n1 n2 n3 n4 by simp
qed

lemma spec_combined_cong:
  "dim_masks d = dim_masks d' \<Longrightarrow> dim_size d = dim_size d' \<Longrightarrow> spec_combined d = spec_combined d'"
  by (simp add: spec_combined_def)

lemma spec_indices_cong:
  "dim_masks d = dim_masks d' \<Longrightarrow> dim_size d = dim_size d' \<Longrightarrow> spec_indices d = spec_indices d'"
  by (simp add: spec_indices_def spec_combined_def)

lemma masked_dimension_fields [simp]:
  "dim_mask (masked_dimension d) = Some (spec_combined d)"
  "dim_indicies (masked_dimension d) = Some (spec_indices d)"
  "dim_masks (masked_dimension d) = dim_masks d"
  "dim_size (masked_dimension d) = dim_size d"
  "dim_generators (masked_dimension d) = dim_generators d"
  "dim_alternate (masked_dimension d) = dim_alternate d"
  "dim_axes (masked_dimension d) = dim_axes d"
  "dim_tile (masked_dimension d) = dim_tile d"
  "dim_repeat (masked_dimension d) = dim_repeat d"
  by (simp_all add: masked_dimension_def)

lemma prepared_dimension:
  assumes "fst (prepare s) = None" and "d \<in> set (dimensions (snd (prepare s)))"
  shows "dim_mask d = Some (spec_combined d) \<and> dim_indicies d = Some (spec_indices d) \<and>
         spec_indices d \<noteq> []"
proof -
  from assms(1) obtain dims1 dims2 dims3 rep sc where
    run: "run_excluders (generators s) (axes_points (produce_all s))
       (seed_dimensions (generators s)) (excluders s) = (None, dims1)"
    and am: "apply_masks dims1 1 = (None, dims2, rep)"
    and ds: "dim_scaling dims2 1 rep = (None, dims3)"
    and st: "snd (prepare s) = (produce_all s)\<lparr>dimensions := dims3, self_num := Some rep,
                                        generator_dim_scaling := sc\<rparr>"
    by (rule prepare_phases)
  have hi: "masks_half_integral dims1"
    using masks_half_integral_run[OF masks_half_integral_seed run] .
  note a = apply_masks_success[OF hi am]
  note f = dim_scaling_frame[OF ds]
  from assms(2) st have "d \<in> set dims3" by simp
  then obtain i where i: "i < length dims3" "d = dims3 ! i" by (auto simp: in_set_conv_nth)
  have len: "length dims3 = length dims1"
    using f a by (metis length_map)
  let ?d1 = "dims1 ! i"
  have nth: "\<And>g. map g dims3 = map g dims2 \<Longrightarrow> g d = g (masked_dimension ?d1)"
  proof -
    fix g :: "dimension \<Rightarrow> 'x" assume "map g dims3 = map g dims2"
    then have "map g dims3 ! i = map g dims2 ! i" by simp
    then show "g d = g (masked_dimension ?d1)" using i len a by simp
  qed
  have m: "dim_mask d = Some (spec_combined ?d1)" "dim_indicies d = Some (spec_indices ?d1)"
    "dim_masks d = dim_masks ?d1" "dim_size d = dim_size ?d1"
    using nth[of dim_mask] nth[of dim_indicies] nth[of dim_masks] nth[of dim_size] f by simp_all
  have "?d1 \<in> set dims1" using i len by simp
  then have "spec_indices ?d1 \<noteq> []" using a by blast
  then show ?thesis
    using m spec_combined_cong[OF m(3,4)] spec_indices_cong[OF m(3,4)] by simp
qed

text \<open>
  Claim C2. When \<open>prepare\<close> succeeds, the mask of every Dimension it leaves behind is the
  conjunction of the recorded masks of that Dimension, each expanded as the specification
  says (every element repeated \<open>repeat\<close> times, then tiled \<open>tile\<close> times, a half-integer
  \<open>tile\<close> being the integer part followed by the first half of the repeated array), and the
  valid indices are exactly the positions where that mask is true. The tile factor is the
  exact rational number, so no rounding is involved.
\<close>

theorem combined_mask_is_conjunction:
  assumes "fst (prepare s) = None"
  shows "\<forall>d \<in> set (dimensions (snd (prepare s))).
           dim_mask d = Some (spec_combined d) \<and>
           dim_indicies d = Some (spec_indices d) \<and>
           (\<forall>m \<in> set (dim_masks d). expand_mask m = spec_expanded m)"
proof
  fix d assume d: "d \<in> set (dimensions (snd (prepare s)))"
  from assms obtain dims1 dims2 dims3 rep sc where
    run: "run_excluders (generators s) (axes_points (produce_all s))
       (seed_dimensions (generators s)) (excluders s) = (None, dims1)"
    and am: "apply_masks dims1 1 = (None, dims2, rep)"
    and ds: "dim_scaling dims2 1 rep = (None, dims3)"
    and st: "snd (prepare s) = (produce_all s)\<lparr>dimensions := dims3, self_num := Some rep,
                                        generator_dim_scaling := sc\<rparr>"
    by (rule prepare_phases)
  have hi: "masks_half_integral dims1"
    using masks_half_integral_run[OF masks_half_integral_seed run] .
  have "map dim_masks dims3 = map dim_masks (map masked_dimension dims1)"
    using dim_scaling_frame[OF ds] apply_masks_success[OF hi am] by simp
  then have "set (map dim_masks dims3) = set (map dim_masks dims1)"
    by (simp add: comp_def)
  moreover have "dim_masks d \<in> set (map dim_masks dims3)" using d st by simp
  ultimately obtain d1 where "d1 \<in> set dims1" "dim_masks d = dim_masks d1" by auto
  then have "\<forall>m \<in> set (dim_masks d). half_integral (m_tile m)"
    using hi by (auto simp: masks_half_integral_def)
  then show "dim_mask d = Some (spec_combined d) \<and>
           dim_indicies d = Some (spec_indices d) \<and>
           (\<forall>m \<in> set (dim_masks d). expand_mask m = spec_expanded m)"
    using prepared_dimension[OF assms d] expand_mask_spec by blast
qed

theorem combined_mask_is_conjunction_witness:
  "fst (prepare config_alt_masked) = None \<and>
   map (\<lambda>d. map m_tile (dim_masks d)) (dimensions (snd (prepare config_alt_masked))) = [[1 / 2]] \<and>
   map dim_indicies (dimensions (snd (prepare config_alt_masked))) = [Some [0, 1, 2, 3, 5]] \<and>
   map dim_mask (dimensions (snd (prepare config_alt_masked))) =
     map (\<lambda>d. Some (spec_combined d)) (dimensions (snd (prepare config_alt_masked))) \<and>
   map dim_indicies (dimensions (snd (prepare config_alt_masked))) =
     map (\<lambda>d. Some (spec_indices d)) (dimensions (snd (prepare config_alt_masked))) \<and>
   list_all (\<lambda>d. list_all (\<lambda>m. expand_mask m = spec_expanded m) (dim_masks d))
     (dimensions (snd (prepare config_alt_masked)))"
proof -
  have h: "fst (prepare config_alt_masked) = None" by code_simp
  have v: "map (\<lambda>d. map m_tile (dim_masks d)) (dimensions (snd (prepare config_alt_masked))) = [[1 / 2]]"
    "map dim_indicies (dimensions (snd (prepare config_alt_masked))) = [Some [0, 1, 2, 3, 5]]"
    by code_simp+
  note t = combined_mask_is_conjunction[OF h]
  have "map dim_mask (dimensions (snd (prepare config_alt_masked))) =
     map (\<lambda>d. Some (spec_combined d)) (dimensions (snd (prepare config_alt_masked)))"
    using t by (simp only: map_eq_conv) blast
  moreover have "map dim_indicies (dimensions (snd (prepare config_alt_masked))) =
     map (\<lambda>d. Some (spec_indices d)) (dimensions (snd (prepare config_alt_masked)))"
    using t by (simp only: map_eq_conv) blast
  moreover have "list_all (\<lambda>d. list_all (\<lambda>m. expand_mask m = spec_expanded m) (dim_masks d))
     (dimensions (snd (prepare config_alt_masked)))"
    using t by (simp only: list_all_iff) blast
  ultimately show ?thesis using h v by blast
qed

subsection \<open>Running prepare again\<close>

lemma map_add_same: "(m ++ u) ++ u = m ++ (u :: 'a \<rightharpoonup> 'b)"
  by (rule ext) (simp add: map_add_def split: option.splits)

lemma foldl_map_add:
  "foldl (\<lambda>m g. m ++ f g) m gs = m ++ foldl (\<lambda>m g. m ++ f g) Map.empty gs"
proof (induction gs arbitrary: m)
  case Nil
  then show ?case by simp
next
  case (Cons g gs)
  have "foldl (\<lambda>m g. m ++ f g) (m ++ f g) gs = (m ++ f g) ++ foldl (\<lambda>m g. m ++ f g) Map.empty gs"
    by (rule Cons.IH)
  moreover have "foldl (\<lambda>m g. m ++ f g) (Map.empty ++ f g) gs
                   = f g ++ foldl (\<lambda>m g. m ++ f g) Map.empty gs"
    using Cons.IH[of "Map.empty ++ f g"] by simp
  ultimately show ?case by (simp add: map_add_assoc)
qed

lemma foldl_map_add_twice:
  "foldl (\<lambda>m g. m ++ f g) (foldl (\<lambda>m g. m ++ f g) m gs) gs = foldl (\<lambda>m g. m ++ f g) m gs"
  using foldl_map_add[of f m gs] foldl_map_add[of f "foldl (\<lambda>m g. m ++ f g) m gs" gs]
  by (metis map_add_same)

lemma gen_scaling_map_add:
  "gen_scaling gens gs t r sc =
     (fst (gen_scaling gens gs t r Map.empty), sc ++ snd (gen_scaling gens gs t r Map.empty))"
proof (induction gs arbitrary: t r sc)
  case Nil
  then show ?case by simp
next
  case (Cons g gs)
  show ?case
  proof (cases "num (gens ! g) = 0")
    case True
    then show ?thesis by simp
  next
    case False
    let ?t = "t * num (gens ! g)" and ?r = "r div num (gens ! g)"
    let ?U = "snd (gen_scaling gens gs ?t ?r Map.empty)"
    have a: "gen_scaling gens gs ?t ?r (sc(g \<mapsto> (t, ?r)))
               = (fst (gen_scaling gens gs ?t ?r Map.empty), sc(g \<mapsto> (t, ?r)) ++ ?U)"
      by (rule Cons.IH)
    have b: "gen_scaling gens gs ?t ?r [g \<mapsto> (t, ?r)]
               = (fst (gen_scaling gens gs ?t ?r Map.empty), [g \<mapsto> (t, ?r)] ++ ?U)"
      by (rule Cons.IH)
    have "sc(g \<mapsto> (t, ?r)) ++ ?U = sc ++ ([g \<mapsto> (t, ?r)] ++ ?U)"
      by (metis map_add_assoc map_add_empty map_add_upd)
    then show ?thesis
      using False a b by (simp del: fun_upd_apply)
  qed
qed

lemma all_gen_scaling_map_add:
  "all_gen_scaling gens dims sc =
     (fst (all_gen_scaling gens dims Map.empty), sc ++ snd (all_gen_scaling gens dims Map.empty))"
proof (induction dims arbitrary: sc)
  case Nil
  then show ?case by simp
next
  case (Cons d dims)
  let ?G = "\<lambda>sc. gen_scaling gens (dim_generators d) 1 (gens_scale gens (dim_generators d)) sc"
  obtain e U where g0: "?G Map.empty = (e, U)" by fastforce
  have g: "?G sc = (e, sc ++ U)" for sc
    by (subst gen_scaling_map_add) (simp only: g0 fst_conv snd_conv)
  show ?case
  proof (cases e)
    case (Some err)
    then show ?thesis using g[of sc] g[of Map.empty] by simp
  next
    case None
    obtain e' V where a0: "all_gen_scaling gens dims Map.empty = (e', V)" by fastforce
    have a: "all_gen_scaling gens dims sc = (e', sc ++ V)" for sc
      by (subst Cons.IH) (simp only: a0 fst_conv snd_conv)
    show ?thesis
      using None g[of sc] g[of Map.empty] a[of "sc ++ U"] a[of "Map.empty ++ U"]
      by (simp add: map_add_assoc)
  qed
qed

lemma all_gen_scaling_twice:
  assumes "all_gen_scaling gens dims sc = (e, sc')"
  shows "all_gen_scaling gens dims sc' = (e, sc')"
proof -
  obtain e0 V where a0: "all_gen_scaling gens dims Map.empty = (e0, V)" by fastforce
  have a: "all_gen_scaling gens dims m = (e0, m ++ V)" for m
    by (subst all_gen_scaling_map_add) (simp only: a0 fst_conv snd_conv)
  from assms a[of sc] have "e = e0" "sc' = sc ++ V" by simp_all
  then show ?thesis using a[of sc'] by (simp add: map_add_same)
qed

lemma prepare_again:
  assumes "fst (prepare s) = None"
  shows "prepare (snd (prepare s)) = prepare s"
proof -
  from assms obtain dims1 dims2 dims3 rep sc where
    run: "run_excluders (generators s) (axes_points (produce_all s))
       (seed_dimensions (generators s)) (excluders s) = (None, dims1)"
    and am: "apply_masks dims1 1 = (None, dims2, rep)"
    and ds: "dim_scaling dims2 1 rep = (None, dims3)"
    and gs: "all_gen_scaling (generators s) dims3 (generator_dim_scaling s) = (None, sc)"
    and st: "snd (prepare s) = (produce_all s)\<lparr>dimensions := dims3, self_num := Some rep,
                                        generator_dim_scaling := sc\<rparr>"
    by (rule prepare_phases)
  let ?s' = "snd (prepare s)"
  have pa: "produce_all ?s' = (produce_all s)\<lparr>generator_dim_scaling := sc\<rparr>"
    unfolding st by (simp add: produce_all_def foldl_map_add_twice)
  have gs': "all_gen_scaling (generators s) dims3 sc = (None, sc)"
    using all_gen_scaling_twice[OF gs] .
  have p1: "prepare s = (None, ?s')"
    using assms by (simp add: prod_eq_iff)
  have "prepare ?s' = (None, (produce_all s)\<lparr>dimensions := dims3, self_num := Some rep,
                                        generator_dim_scaling := sc\<rparr>)"
    unfolding prepare_def[of ?s'] pa using run am ds gs' by (simp add: Let_def)
  then show ?thesis using p1 st by simp
qed

text \<open>
  Claim C9. The generators of the model reproduce the same points at every
  \<open>produce_points()\<close>. When \<open>prepare\<close> succeeds, running it again, any number of times,
  succeeds and leaves the very same object behind: the same total number of points and
  the same result of \<open>get_point\<close> at every index.
\<close>

theorem prepare_idempotent:
  assumes "fst (prepare s) = None"
  shows "prepare (snd (prepare s)) = prepare s \<and>
         ((snd \<circ> prepare) ^^ Suc k) s = snd (prepare s) \<and>
         self_num (snd (prepare (snd (prepare s)))) = self_num (snd (prepare s)) \<and>
         get_point (snd (prepare (snd (prepare s)))) n = get_point (snd (prepare s)) n"
proof -
  have again: "prepare (snd (prepare s)) = prepare s"
    using prepare_again[OF assms] .
  have "((snd \<circ> prepare) ^^ Suc k) s = snd (prepare s)"
  proof (induction k)
    case 0
    then show ?case by simp
  next
    case (Suc k)
    have "((snd \<circ> prepare) ^^ Suc (Suc k)) s = snd (prepare (((snd \<circ> prepare) ^^ Suc k) s))"
      by simp
    also have "\<dots> = snd (prepare (snd (prepare s)))" unfolding Suc.IH ..
    also have "\<dots> = snd (prepare s)" unfolding again ..
    finally show ?case .
  qed
  then show ?thesis using again by simp
qed


theorem prepare_idempotent_witness:
  "fst (prepare config_alt_masked) = None \<and>
   prepare (snd (prepare config_alt_masked)) = prepare config_alt_masked \<and>
   ((snd \<circ> prepare) ^^ Suc 2) config_alt_masked = snd (prepare config_alt_masked) \<and>
   self_num (snd (prepare (snd (prepare config_alt_masked)))) = Some 5 \<and>
   get_point (snd (prepare (snd (prepare config_alt_masked)))) 3 =
     get_point (snd (prepare config_alt_masked)) 3 \<and>
   read_point [''a'', ''b''] (get_point (snd (prepare config_alt_masked)) 3) =
     Inr ([Some 1, Some 30], [3])"
proof -
  have h: "fst (prepare config_alt_masked) = None" by code_simp
  have v: "self_num (snd (prepare config_alt_masked)) = Some 5"
    "read_point [''a'', ''b''] (get_point (snd (prepare config_alt_masked)) 3) =
       Inr ([Some 1, Some 30], [3])"
    by code_simp+
  show ?thesis
    using h v prepare_idempotent[OF h, of 2 3] by simp
qed

subsection \<open>Products of generator counts\<close>

lemma gens_scale_prod: "gens_scale gens gs = prod_list (map (\<lambda>g. num (gens ! g)) gs)"
proof -
  have "foldl (\<lambda>scale g. scale * num (gens ! g)) a gs = a * prod_list (map (\<lambda>g. num (gens ! g)) gs)"
    for a
    by (induction gs arbitrary: a) (simp_all add: mult.assoc)
  then show ?thesis by (simp add: gens_scale_def)
qed

lemma gens_scale_append:
  "gens_scale gens (xs @ ys) = gens_scale gens xs * gens_scale gens ys"
  by (simp add: gens_scale_prod)

lemma prod_list_filter_split:
  "prod_list (map f xs) =
     prod_list (map f (filter P xs)) * prod_list (map f (filter (\<lambda>x. \<not> P x) xs))"
  for f :: "'a \<Rightarrow> nat"
  by (induction xs) simp_all

lemma prod_list_two:
  fixes f :: "nat \<Rightarrow> nat"
  assumes "distinct xs" and "a \<in> set xs" and "b \<in> set xs"
  shows "prod_list (map f (filter (\<lambda>x. x = a \<or> x = b) xs)) = (if a = b then f a else f a * f b)"
proof -
  have d: "distinct (filter (\<lambda>x. x = a \<or> x = b) xs)" using assms(1) by simp
  have s: "set (filter (\<lambda>x. x = a \<or> x = b) xs) = {a, b}" using assms(2,3) by auto
  have "prod_list (map f (filter (\<lambda>x. x = a \<or> x = b) xs)) = prod f {a, b}"
    using prod.distinct_set_conv_list[OF d, of f] s by simp
  then show ?thesis by simp
qed

lemma mask_scaling_product:
  assumes "mask_scaling gens a1 a2 gs t r f = (t', r')"
  shows "t' * of_nat r' =
           t * of_nat r * of_nat (prod_list (map (\<lambda>g. num (gens ! g))
             (filter (\<lambda>g. \<not> (a1 \<in> set (axes (gens ! g)) \<or> a2 \<in> set (axes (gens ! g)))) gs)))"
  using assms
proof (induction gs arbitrary: t r f)
  case Nil
  then show ?case by simp
next
  case (Cons g gs)
  show ?case
  proof (cases "a1 \<in> set (axes (gens ! g)) \<or> a2 \<in> set (axes (gens ! g))")
    case True
    with Cons.prems have "mask_scaling gens a1 a2 gs t r True = (t', r')" by simp
    from Cons.IH[OF this] True show ?thesis by auto
  next
    case False
    show ?thesis
    proof (cases f)
      case True
      with False Cons.prems
      have "mask_scaling gens a1 a2 gs t (r * num (gens ! g)) f = (t', r')" by simp
      from Cons.IH[OF this] False show ?thesis by (simp add: mult.assoc mult.left_commute)
    next
      case nf: False
      with False Cons.prems
      have "mask_scaling gens a1 a2 gs (t * of_nat (num (gens ! g))) r f = (t', r')" by simp
      from Cons.IH[OF this] False show ?thesis by (simp add: mult.assoc mult.left_commute)
    qed
  qed
qed

subsection \<open>Every axis has one owner\<close>

lemma distinct_concat_disjoint:
  "distinct (concat xss) \<Longrightarrow> i < j \<Longrightarrow> j < length xss \<Longrightarrow> set (xss ! i) \<inter> set (xss ! j) = {}"
proof (induction xss arbitrary: i j)
  case Nil
  then show ?case by simp
next
  case (Cons xs xss)
  from Cons.prems(2) obtain j' where j: "j = Suc j'" by (cases j) auto
  show ?case
  proof (cases i)
    case 0
    have "xss ! j' \<in> set xss" using Cons.prems(3) j by simp
    then show ?thesis using Cons.prems(1) 0 j by auto
  next
    case (Suc i')
    then show ?thesis using Cons j by simp
  qed
qed

lemma axis_owner_unique:
  assumes "distinct (concat (map axes gens))" and "i < length gens" and "j < length gens"
      and "a \<in> set (axes (gens ! i))" and "a \<in> set (axes (gens ! j))"
  shows "i = j"
proof (rule ccontr)
  assume ne: "i \<noteq> j"
  have "set (map axes gens ! i) \<inter> set (map axes gens ! j) = {}"
  proof (cases "i < j")
    case True
    then show ?thesis using distinct_concat_disjoint[OF assms(1) True] assms(3) by simp
  next
    case False
    then have "j < i" using ne by simp
    then show ?thesis using distinct_concat_disjoint[OF assms(1) \<open>j < i\<close>] assms(2) by auto
  qed
  then show False using assms(2-5) by auto
qed

lemma find_gen_owner:
  assumes "find_gen gens a = Inr g"
  shows "g < length gens \<and> a \<in> set (axes (gens ! g))"
proof -
  from assms obtain rest where
    "filter (\<lambda>i. a \<in> set (axes (gens ! i))) [0..<length gens] = g # rest"
    by (auto simp: find_gen_def split: list.splits)
  then have "g \<in> set (filter (\<lambda>i. a \<in> set (axes (gens ! i))) [0..<length gens])" by simp
  then show ?thesis by simp
qed

lemma find_dim_owner:
  assumes "find_dim dims a = Inr d"
  shows "d < length dims \<and> a \<in> set (dim_axes (dims ! d))"
proof -
  from assms obtain rest where
    "filter (\<lambda>i. a \<in> set (dim_axes (dims ! i))) [0..<length dims] = d # rest"
    by (auto simp: find_dim_def split: list.splits)
  then have "d \<in> set (filter (\<lambda>i. a \<in> set (dim_axes (dims ! i))) [0..<length dims])" by simp
  then show ?thesis by simp
qed

lemma axes_points_owner:
  assumes "\<forall>g \<in> set gens. arrays_ok (f g) (axes g) (num g)"
      and "distinct (concat (map axes gens))"
      and "i < length gens" and "a \<in> set (axes (gens ! i))"
  shows "\<exists>ps. foldl (\<lambda>m g. m ++ f g) m gens a = Some ps \<and> length ps = num (gens ! i)"
  using assms
proof (induction gens rule: rev_induct)
  case Nil
  then show ?case by simp
next
  case (snoc g gens)
  have ok: "arrays_ok (f g) (axes g) (num g)" using snoc.prems(1) by simp
  show ?case
  proof (cases "i = length gens")
    case True
    then have "a \<in> dom (f g)" using snoc.prems(4) ok by (simp add: arrays_ok_def)
    then obtain ps where ps: "f g a = Some ps" by auto
    then have "length ps = num g" using ok by (auto simp: arrays_ok_def)
    then show ?thesis using ps True by simp
  next
    case False
    then have i: "i < length gens" using snoc.prems(3) by simp
    then have ai: "a \<in> set (axes (gens ! i))" using snoc.prems(4) by (simp add: nth_append)
    have "gens ! i \<in> set gens" using i by simp
    then have "a \<notin> set (axes g)"
      using snoc.prems(2) ai by auto
    then have "f g a = None" using ok by (auto simp: arrays_ok_def)
    moreover have "\<exists>ps. foldl (\<lambda>m g. m ++ f g) m gens a = Some ps \<and> length ps = num (gens ! i)"
      using snoc.IH snoc.prems(1,2) i ai by simp
    ultimately show ?thesis using i by (simp add: map_add_def nth_append)
  qed
qed

subsection \<open>The invariant of the Dimensions\<close>

lemma dimensions_inv_seed: "dimensions_inv gens (seed_dimensions gens)"
proof -
  have "concat (map dim_generators (seed_dimensions gens)) = [0..<length gens]"
    by (simp add: seed_dimensions_def seed_dimension_def comp_def)
  moreover have "dimension_inv gens (seed_dimension gens g)" for g
    by (simp add: dimension_inv_def seed_dimension_def owner_axes_def gens_scale_def)
  ultimately show ?thesis
    by (auto simp: dimensions_inv_def seed_dimensions_def)
qed

lemma dimensions_inv_generators:
  assumes "dimensions_inv gens dims" and "d < length dims"
  shows "distinct (dim_generators (dims ! d))"
    and "set (dim_generators (dims ! d)) \<subseteq> {..<length gens}"
proof -
  have c: "concat (map dim_generators dims) = [0..<length gens]"
    using assms(1) by (simp add: dimensions_inv_def)
  have m: "dim_generators (dims ! d) \<in> set (map dim_generators dims)"
    using assms(2) by simp
  have "distinct (concat (map dim_generators dims))" unfolding c by simp
  then show "distinct (dim_generators (dims ! d))"
    using m by (simp only: distinct_concat_iff)
  have "set (dim_generators (dims ! d)) \<subseteq> set (concat (map dim_generators dims))"
    using m by auto
  then show "set (dim_generators (dims ! d)) \<subseteq> {..<length gens}"
    unfolding c by auto
qed

lemma dimensions_inv_nth:
  "dimensions_inv gens dims \<Longrightarrow> d < length dims \<Longrightarrow> dimension_inv gens (dims ! d)"
  by (simp add: dimensions_inv_def)

lemma dimension_owner:
  assumes inv: "dimensions_inv gens dims" and dist: "distinct (concat (map axes gens))"
      and d: "d < length dims" and a: "a \<in> set (dim_axes (dims ! d))"
      and g: "g < length gens" and ag: "a \<in> set (axes (gens ! g))"
  shows "g \<in> set (dim_generators (dims ! d))"
proof -
  have "dim_axes (dims ! d) = owner_axes gens (dim_generators (dims ! d))"
    using dimensions_inv_nth[OF inv d] by (simp add: dimension_inv_def)
  with a obtain g' where g': "g' \<in> set (dim_generators (dims ! d))" "a \<in> set (axes (gens ! g'))"
    by (auto simp: owner_axes_def)
  then have "g' < length gens" using dimensions_inv_generators(2)[OF inv d] by auto
  then have "g' = g" using axis_owner_unique[OF dist _ g g'(2) ag] by simp
  with g' show ?thesis by simp
qed

lemma dimensions_inv_add_mask:
  assumes inv: "dimensions_inv gens dims" and d: "d < length dims"
      and m: "assert_consistent m (dim_size (dims ! d))"
  shows "dimensions_inv gens (dims[d := (dims ! d)\<lparr>dim_masks := dim_masks (dims ! d) @ [m]\<rparr>])"
proof -
  let ?dm = "(dims ! d)\<lparr>dim_masks := dim_masks (dims ! d) @ [m]\<rparr>"
  have "map dim_generators (dims[d := ?dm]) = map dim_generators dims"
    by (simp add: map_update) (metis list_update_id map_update)
  moreover have "dimension_inv gens ?dm"
    using dimensions_inv_nth[OF inv d] m by (auto simp: dimension_inv_def)
  moreover have "\<And>x. x \<in> set (dims[d := ?dm]) \<Longrightarrow> x = ?dm \<or> x \<in> set dims"
    by (meson insert_iff set_update_subset_insert subsetD)
  ultimately show ?thesis
    using inv unfolding dimensions_inv_def by auto
qed

lemma merge_dims_split:
  assumes "Suc d < length dims"
  shows "dims = take d dims @ [dims ! d, dims ! Suc d] @ drop (Suc (Suc d)) dims"
    and "merge_dims gens dims d (Suc d) =
           take d dims @
           [(dims ! d)\<lparr>dim_masks :=
               map (\<lambda>m. m\<lparr>m_repeat := m_repeat m * gens_scale gens (dim_generators (dims ! Suc d))\<rparr>)
                 (dim_masks (dims ! d)) @
               map (\<lambda>m. m\<lparr>m_tile := m_tile m * of_nat (gens_scale gens (dim_generators (dims ! d)))\<rparr>)
                 (dim_masks (dims ! Suc d)),
             dim_axes := dim_axes (dims ! d) @ dim_axes (dims ! Suc d),
             dim_generators := dim_generators (dims ! d) @ dim_generators (dims ! Suc d),
             dim_size := dim_size (dims ! d) * dim_size (dims ! Suc d)\<rparr>] @
           drop (Suc (Suc d)) dims"
proof -
  have d: "d < length dims" using assms by simp
  show "dims = take d dims @ [dims ! d, dims ! Suc d] @ drop (Suc (Suc d)) dims"
    using assms d by (metis Cons_nth_drop_Suc append_Cons append_Nil append_take_drop_id)
  show "merge_dims gens dims d (Suc d) = take d dims @ [(dims ! d)\<lparr>dim_masks :=
               map (\<lambda>m. m\<lparr>m_repeat := m_repeat m * gens_scale gens (dim_generators (dims ! Suc d))\<rparr>)
                 (dim_masks (dims ! d)) @
               map (\<lambda>m. m\<lparr>m_tile := m_tile m * of_nat (gens_scale gens (dim_generators (dims ! d)))\<rparr>)
                 (dim_masks (dims ! Suc d)),
             dim_axes := dim_axes (dims ! d) @ dim_axes (dims ! Suc d),
             dim_generators := dim_generators (dims ! d) @ dim_generators (dims ! Suc d),
             dim_size := dim_size (dims ! d) * dim_size (dims ! Suc d)\<rparr>] @
           drop (Suc (Suc d)) dims"
    using assms d
    by (simp add: merge_dims_def Let_def take_Suc_conv_app_nth)
qed

lemma assert_consistent_repeat:
  "assert_consistent m n \<Longrightarrow> assert_consistent (m\<lparr>m_repeat := m_repeat m * k\<rparr>) (n * k)"
  by (simp add: assert_consistent_def algebra_simps)

lemma assert_consistent_tile:
  "assert_consistent m n \<Longrightarrow> assert_consistent (m\<lparr>m_tile := m_tile m * of_nat k\<rparr>) (k * n)"
  by (simp add: assert_consistent_def algebra_simps)

lemma dimensions_inv_merge:
  assumes inv: "dimensions_inv gens dims" and d: "Suc d < length dims"
  shows "dimensions_inv gens (merge_dims gens dims d (Suc d))"
proof -
  let ?d1 = "dims ! d" and ?d2 = "dims ! Suc d"
  let ?merged = "?d1\<lparr>dim_masks :=
               map (\<lambda>m. m\<lparr>m_repeat := m_repeat m * gens_scale gens (dim_generators ?d2)\<rparr>)
                 (dim_masks ?d1) @
               map (\<lambda>m. m\<lparr>m_tile := m_tile m * of_nat (gens_scale gens (dim_generators ?d1))\<rparr>)
                 (dim_masks ?d2),
             dim_axes := dim_axes ?d1 @ dim_axes ?d2,
             dim_generators := dim_generators ?d1 @ dim_generators ?d2,
             dim_size := dim_size ?d1 * dim_size ?d2\<rparr>"
  note sp = merge_dims_split[OF d]
  have i1: "dimension_inv gens ?d1" and i2: "dimension_inv gens ?d2"
    using inv d by (simp_all add: dimensions_inv_def)
  have s1: "dim_size ?d1 = gens_scale gens (dim_generators ?d1)"
    and s2: "dim_size ?d2 = gens_scale gens (dim_generators ?d2)"
    using i1 i2 by (simp_all add: dimension_inv_def)
  have c1: "\<And>m. m \<in> set (dim_masks ?d1) \<Longrightarrow> assert_consistent m (dim_size ?d1)"
    and c2: "\<And>m. m \<in> set (dim_masks ?d2) \<Longrightarrow> assert_consistent m (dim_size ?d2)"
    using i1 i2 unfolding dimension_inv_def by blast+
  have "dimension_inv gens ?merged"
    unfolding dimension_inv_def
  proof (intro conjI ballI)
    show "dim_axes ?merged = owner_axes gens (dim_generators ?merged)"
      using i1 i2 by (simp add: dimension_inv_def owner_axes_def)
    show "dim_size ?merged = gens_scale gens (dim_generators ?merged)"
      using s1 s2 by (simp add: gens_scale_append)
    fix m assume "m \<in> set (dim_masks ?merged)"
    then consider m1 where "m1 \<in> set (dim_masks ?d1)"
        "m = m1\<lparr>m_repeat := m_repeat m1 * gens_scale gens (dim_generators ?d2)\<rparr>"
      | m2 where "m2 \<in> set (dim_masks ?d2)"
        "m = m2\<lparr>m_tile := m_tile m2 * of_nat (gens_scale gens (dim_generators ?d1))\<rparr>"
      by auto
    then show "assert_consistent m (dim_size ?merged)"
    proof cases
      case 1
      then show ?thesis using assert_consistent_repeat[OF c1[OF 1(1)]] s2 by simp
    next
      case 2
      then show ?thesis using assert_consistent_tile[OF c2[OF 2(1)]] s1 by simp
    qed
  qed
  moreover have "concat (map dim_generators (merge_dims gens dims d (Suc d))) = [0..<length gens]"
  proof -
    have "concat (map dim_generators (merge_dims gens dims d (Suc d))) =
          concat (map dim_generators (take d dims)) @ dim_generators ?d1 @ dim_generators ?d2 @
          concat (map dim_generators (drop (Suc (Suc d)) dims))"
      unfolding sp(2) by simp
    also have "\<dots> = concat (map dim_generators
                 (take d dims @ [dims ! d, dims ! Suc d] @ drop (Suc (Suc d)) dims))"
      by simp
    also have "\<dots> = concat (map dim_generators dims)" using sp(1) by simp
    finally show ?thesis using inv by (simp add: dimensions_inv_def)
  qed
  moreover have "\<And>x. x \<in> set (merge_dims gens dims d (Suc d)) \<Longrightarrow> x = ?merged \<or> x \<in> set dims"
    unfolding sp(2) by (auto dest: in_set_takeD in_set_dropD)
  ultimately show ?thesis
    using inv unfolding dimensions_inv_def by blast
qed

lemma merge_dims_nth:
  assumes "Suc d < length dims"
  shows "d < length (merge_dims gens dims d (Suc d))"
    and "dim_generators (merge_dims gens dims d (Suc d) ! d) =
           dim_generators (dims ! d) @ dim_generators (dims ! Suc d)"
    and "dim_alternate (merge_dims gens dims d (Suc d) ! d) = dim_alternate (dims ! d)"
proof -
  have l: "length (take d dims) = d" using assms by simp
  show "d < length (merge_dims gens dims d (Suc d))"
    using assms by (simp add: length_merge_dims)
  show "dim_generators (merge_dims gens dims d (Suc d) ! d) =
           dim_generators (dims ! d) @ dim_generators (dims ! Suc d)"
    unfolding merge_dims_split(2)[OF assms] using assms by (simp add: nth_append)
  show "dim_alternate (merge_dims gens dims d (Suc d) ! d) = dim_alternate (dims ! d)"
    unfolding merge_dims_split(2)[OF assms] using assms by (simp add: nth_append)
qed

lemma region_points_length:
  assumes "length p1 = n1" and "length p2 = n2" and "same \<Longrightarrow> n1 = n2"
      and "region_points same alt n1 n2 p1 p2 = (db, q1, q2)"
  shows "length q1 = length q2"
    and "of_nat (length q1) * (if db then 1 / 2 else 1 :: rat) =
           of_nat (if same then n1 else n1 * n2)"
proof -
  consider (sa) "same" "alt" | (a) "\<not> same" "alt" | (n) "\<not> same" "\<not> alt" | (s) "same" "\<not> alt"
    by blast
  then have "length q1 = length q2 \<and>
     of_nat (length q1) * (if db then 1 / 2 else 1 :: rat) = of_nat (if same then n1 else n1 * n2)"
  proof cases
    case sa
    then show ?thesis using assms by (auto simp: region_points_def np_append_def)
  next
    case a
    then show ?thesis using assms
      by (auto simp: region_points_def np_append_def np_repeat_length np_tile_length algebra_simps)
  next
    case n
    then show ?thesis using assms
      by (auto simp: region_points_def np_repeat_length np_tile_length algebra_simps)
  next
    case s
    then show ?thesis using assms by (auto simp: region_points_def)
  qed
  then show "length q1 = length q2"
    and "of_nat (length q1) * (if db then 1 / 2 else 1 :: rat) =
           of_nat (if same then n1 else n1 * n2)"
    by blast+
qed

lemma touching_product:
  assumes dist: "distinct (concat (map axes gens))"
      and G: "distinct G" "set G \<subseteq> {..<length gens}"
      and g1: "g1 \<in> set G" "a1 \<in> set (axes (gens ! g1))"
      and g2: "g2 \<in> set G" "a2 \<in> set (axes (gens ! g2))"
  shows "gens_scale gens G =
           (if g1 = g2 then num (gens ! g1) else num (gens ! g1) * num (gens ! g2)) *
           prod_list (map (\<lambda>g. num (gens ! g))
             (filter (\<lambda>g. \<not> (a1 \<in> set (axes (gens ! g)) \<or> a2 \<in> set (axes (gens ! g)))) G))"
proof -
  let ?T = "\<lambda>g. a1 \<in> set (axes (gens ! g)) \<or> a2 \<in> set (axes (gens ! g))"
  have l1: "g1 < length gens" and l2: "g2 < length gens" using G(2) g1(1) g2(1) by auto
  have "?T g \<longleftrightarrow> g = g1 \<or> g = g2" if "g \<in> set G" for g
  proof -
    have l: "g < length gens" using that G(2) by auto
    show ?thesis
      using axis_owner_unique[OF dist l l1 _ g1(2)] axis_owner_unique[OF dist l l2 _ g2(2)]
        g1(2) g2(2)
      by blast
  qed
  then have "filter ?T G = filter (\<lambda>g. g = g1 \<or> g = g2) G"
    by (intro filter_cong) simp_all
  then have "prod_list (map (\<lambda>g. num (gens ! g)) (filter ?T G)) =
               (if g1 = g2 then num (gens ! g1) else num (gens ! g1) * num (gens ! g2))"
    using prod_list_two[OF G(1) g1(1) g2(1), of "\<lambda>g. num (gens ! g)"] by simp
  then show ?thesis
    using prod_list_filter_split[of "\<lambda>g. num (gens ! g)" G ?T]
    by (simp add: gens_scale_prod)
qed

lemma add_mask_consistent:
  assumes inv: "dimensions_inv gens dims" and d: "d < length dims"
      and dist: "distinct (concat (map axes gens))"
      and apok: "axes_points_ok gens ap" and eok: "excluder_ok e"
      and g1: "g1 \<in> set (dim_generators (dims ! d))" "a1 \<in> set (axes (gens ! g1))"
      and g2: "g2 \<in> set (dim_generators (dims ! d))" "a2 \<in> set (axes (gens ! g2))"
      and am: "add_mask gens ap dims e d g1 g2 a1 a2 = (r, dims')"
  shows "dimensions_inv gens dims'"
proof -
  let ?dm = "dims ! d"
  let ?G = "dim_generators ?dm"
  note G = dimensions_inv_generators[OF inv d]
  have l1: "g1 < length gens" and l2: "g2 < length gens" using G(2) g1(1) g2(1) by auto
  obtain p1 where p1: "ap a1 = Some p1" "length p1 = num (gens ! g1)"
    using apok l1 g1(2) unfolding axes_points_ok_def by blast
  obtain p2 where p2: "ap a2 = Some p2" "length p2 = num (gens ! g2)"
    using apok l2 g2(2) unfolding axes_points_ok_def by blast
  obtain db q1 q2 where rp: "region_points (g1 = g2) (dim_alternate ?dm)
        (num (gens ! g1)) (num (gens ! g2)) p1 p2 = (db, q1, q2)"
    using prod_cases3 by blast
  obtain t rr where ms: "mask_scaling gens a1 a2 ?G (if db then 1 / 2 else 1) 1 False = (t, rr)"
    by fastforce
  let ?mask = "if a1 = fst (scannables e) then create_mask e q1 q2 else create_mask e q2 q1"
  let ?m = "\<lparr>m_repeat = rr, m_tile = t, m_mask = ?mask\<rparr>"
  have dims': "dims' = dims[d := ?dm\<lparr>dim_masks := dim_masks ?dm @ [?m]\<rparr>]"
    using am p1(1) p2(1) rp ms by (simp add: add_mask_def Let_def)
  have same: "g1 = g2 \<Longrightarrow> num (gens ! g1) = num (gens ! g2)" by simp
  note rl = region_points_length[OF p1(2) p2(2) same rp]
  have lm: "length ?mask = length q1"
    using eok rl(1) by (simp add: excluder_ok_def)
  let ?NT = "prod_list (map (\<lambda>g. num (gens ! g))
             (filter (\<lambda>g. \<not> (a1 \<in> set (axes (gens ! g)) \<or> a2 \<in> set (axes (gens ! g)))) ?G))"
  let ?P = "if g1 = g2 then num (gens ! g1) else num (gens ! g1) * num (gens ! g2)"
  have tr: "t * of_nat rr = (if db then 1 / 2 else 1) * of_nat ?NT"
    using mask_scaling_product[OF ms] by simp
  have size: "dim_size ?dm = ?P * ?NT"
    using touching_product[OF dist G g1 g2] dimensions_inv_nth[OF inv d]
    by (simp add: dimension_inv_def)
  have "of_nat (length ?mask) * of_nat rr * t = of_nat (length q1) * (t * of_nat rr)"
    unfolding lm by simp
  also have "\<dots> = (of_nat (length q1) * (if db then 1 / 2 else 1)) * of_nat ?NT"
    unfolding tr by simp
  also have "\<dots> = of_nat ?P * of_nat ?NT"
    using rl(2) by simp
  also have "\<dots> = of_nat (dim_size ?dm)"
    unfolding size by simp
  finally have "assert_consistent ?m (dim_size ?dm)"
    by (simp add: assert_consistent_def)
  from dimensions_inv_add_mask[OF inv d this] show ?thesis
    unfolding dims' .
qed

lemma merge_step_inv:
  assumes inv: "dimensions_inv gens dims"
      and dist: "distinct (concat (map axes gens))"
      and apok: "axes_points_ok gens ap" and eok: "excluder_ok e"
      and g1: "g1 < length gens" "a1 \<in> set (axes (gens ! g1))"
      and g2: "g2 < length gens" "a2 \<in> set (axes (gens ! g2))"
      and ms: "merge_step gens ap dims e g1 g2 a1 a2 = (r, dims')"
  shows "dimensions_inv gens dims'"
proof (cases "find_dim dims a1")
  case (Inl err)
  with ms inv show ?thesis by (simp add: merge_step_def)
next
  case (Inr d1)
  note fd1 = this
  show ?thesis
  proof (cases "find_dim dims a2")
    case (Inl err)
    with fd1 ms inv show ?thesis by (simp add: merge_step_def)
  next
    case (Inr d2)
    have d1: "d1 < length dims" "a1 \<in> set (dim_axes (dims ! d1))"
      and d2: "d2 < length dims" "a2 \<in> set (dim_axes (dims ! d2))"
      using find_dim_owner[OF fd1] find_dim_owner[OF Inr] by simp_all
    have o1: "g1 \<in> set (dim_generators (dims ! d1))"
      using dimension_owner[OF inv dist d1 g1] .
    have o2: "g2 \<in> set (dim_generators (dims ! d2))"
      using dimension_owner[OF inv dist d2 g2] .
    have step: "merge_step gens ap dims e g1 g2 a1 a2 =
       (if dim_alternate (dims ! d1) \<noteq> dim_alternate (dims ! d2)
         then (Some ValueError_alternate, dims)
       else if int d1 - int d2 < - 1 \<or> int d1 - int d2 > 1
         then (Some ValueError_not_adjacent, dims)
       else if int d1 - int d2 = 1
         then add_mask gens ap (merge_dims gens dims d2 d1) e d2 g1 g2 a1 a2
       else if int d1 - int d2 = - 1
         then add_mask gens ap (merge_dims gens dims d1 d2) e d1 g1 g2 a1 a2
       else add_mask gens ap dims e d1 g1 g2 a1 a2)"
      using fd1 Inr by (simp add: merge_step_def)
    consider (err) "dims' = dims"
      | (swap) "int d1 - int d2 = 1"
          "add_mask gens ap (merge_dims gens dims d2 d1) e d2 g1 g2 a1 a2 = (r, dims')"
      | (merge) "int d1 - int d2 = - 1"
          "add_mask gens ap (merge_dims gens dims d1 d2) e d1 g1 g2 a1 a2 = (r, dims')"
      | (same) "d1 = d2" "add_mask gens ap dims e d1 g1 g2 a1 a2 = (r, dims')"
    proof (cases "dim_alternate (dims ! d1) \<noteq> dim_alternate (dims ! d2) \<or>
                  int d1 - int d2 < - 1 \<or> int d1 - int d2 > 1")
      case True
      then have "dims' = dims" using ms unfolding step by (auto split: if_splits)
      then show ?thesis by (rule err)
    next
      case False
      show ?thesis
      proof (cases "int d1 - int d2 = 1")
        case True
        then show ?thesis using swap False ms unfolding step by simp
      next
        case ne1: False
        show ?thesis
        proof (cases "int d1 - int d2 = - 1")
          case True
          then show ?thesis using merge False ms unfolding step by simp
        next
          case nem: False
          have "d1 = d2" using False ne1 nem by linarith
          then show ?thesis using same False ne1 nem ms unfolding step by simp
        qed
      qed
    qed
    then show ?thesis
    proof cases
      case err
      with inv show ?thesis by simp
    next
      case swap
      then have s: "d1 = Suc d2" by linarith
      have l: "Suc d2 < length dims" using d1(1) s by simp
      note mn = merge_dims_nth[OF l, of gens]
      show ?thesis
        using add_mask_consistent[OF dimensions_inv_merge[OF inv l] mn(1) dist apok eok
            _ g1(2) _ g2(2) swap(2)[unfolded s]] o1 o2 mn(2) s
        by simp
    next
      case merge
      then have s: "d2 = Suc d1" by linarith
      have l: "Suc d1 < length dims" using d2(1) s by simp
      note mn = merge_dims_nth[OF l, of gens]
      show ?thesis
        using add_mask_consistent[OF dimensions_inv_merge[OF inv l] mn(1) dist apok eok
            _ g1(2) _ g2(2) merge(2)[unfolded s]] o1 o2 mn(2) s
        by simp
    next
      case same
      show ?thesis
        using add_mask_consistent[OF inv d1(1) dist apok eok o1 g1(2) _ g2(2) same(2)] o2 same(1)
        by simp
    qed
  qed
qed

lemma excluder_step_inv:
  assumes inv: "dimensions_inv gens dims"
      and dist: "distinct (concat (map axes gens))"
      and apok: "axes_points_ok gens ap" and eok: "excluder_ok e"
      and st: "excluder_step gens ap dims e = (r, dims')"
  shows "dimensions_inv gens dims'"
proof (cases "find_gen gens (fst (scannables e))")
  case (Inl err)
  with st inv show ?thesis by (simp add: excluder_step_def)
next
  case (Inr g1)
  note fg1 = this
  show ?thesis
  proof (cases "find_gen gens (snd (scannables e))")
    case (Inl err)
    with fg1 st inv show ?thesis by (simp add: excluder_step_def)
  next
    case (Inr g2)
    note o1 = find_gen_owner[OF fg1] and o2 = find_gen_owner[OF Inr]
    consider (err) "dims' = dims"
      | (swap) "merge_step gens ap dims e g2 g1 (snd (scannables e)) (fst (scannables e)) = (r, dims')"
      | (keep) "merge_step gens ap dims e g1 g2 (fst (scannables e)) (snd (scannables e)) = (r, dims')"
      using st fg1 Inr by (auto simp: excluder_step_def split: if_splits)
    then show ?thesis
    proof cases
      case err
      with inv show ?thesis by simp
    next
      case swap
      show ?thesis
        using merge_step_inv[OF inv dist apok eok _ _ _ _ swap] o1 o2 by simp
    next
      case keep
      show ?thesis
        using merge_step_inv[OF inv dist apok eok _ _ _ _ keep] o1 o2 by simp
    qed
  qed
qed

lemma run_excluders_inv:
  assumes "dimensions_inv gens dims"
      and "distinct (concat (map axes gens))"
      and "axes_points_ok gens ap" and "\<forall>e \<in> set es. excluder_ok e"
      and "run_excluders gens ap dims es = (r, dims')"
  shows "dimensions_inv gens dims'"
  using assms
proof (induction es arbitrary: dims)
  case Nil
  then show ?case by simp
next
  case (Cons e es)
  obtain r1 dims1 where st: "excluder_step gens ap dims e = (r1, dims1)" by fastforce
  have "excluder_ok e" using Cons.prems(4) by simp
  from excluder_step_inv[OF Cons.prems(1,2,3) this st]
  have h1: "dimensions_inv gens dims1" .
  show ?case
  proof (cases r1)
    case None
    with st Cons.prems(5) have "run_excluders gens ap dims1 es = (r, dims')" by simp
    from Cons.IH[OF h1 Cons.prems(2,3) _ this] Cons.prems(4) show ?thesis by simp
  next
    case (Some err)
    with st Cons.prems(5) have "dims' = dims1" by simp
    with h1 show ?thesis by simp
  qed
qed

lemma axes_points_ok_produce_all:
  assumes "\<forall>g \<in> set (generators s). generator_ok g"
      and "distinct (concat (map axes (generators s)))"
  shows "axes_points_ok (generators s) (axes_points (produce_all s))"
  unfolding axes_points_ok_def
proof (intro allI impI ballI)
  fix g a assume g: "g < length (generators s)" and a: "a \<in> set (axes (generators s ! g))"
  have "\<forall>g \<in> set (generators s). arrays_ok (points g) (axes g) (num g)"
    using assms(1) by (simp add: generator_ok_def)
  from axes_points_owner[OF this assms(2) g a, of "axes_points s"]
  show "\<exists>ps. axes_points (produce_all s) a = Some ps \<and> length ps = num (generators s ! g)"
    by (simp add: produce_all_def)
qed

subsection \<open>The first loop over the Dimensions, on consistent masks\<close>

lemma full_mask_consistent:
  assumes "\<And>m. m \<in> set (dim_masks d) \<Longrightarrow> assert_consistent m (dim_size d)"
      and "\<And>m. m \<in> set (dim_masks d) \<Longrightarrow> half_integral (m_tile m)"
  shows "combine_masks (replicate (dim_size d) True) (dim_masks d) = Inr (spec_combined d)"
proof -
  obtain r where r: "combine_masks (replicate (dim_size d) True) (dim_masks d) = Inr r"
    using combine_masks_consistent[of "dim_masks d" "replicate (dim_size d) True"] assms by auto
  then have "full_mask d = Inr r" by (simp add: full_mask_def)
  from full_mask_spec[OF assms(2) this] r show ?thesis by simp
qed

lemma apply_masks_consistent:
  assumes "\<forall>d \<in> set dims. \<forall>m \<in> set (dim_masks d).
             assert_consistent m (dim_size d) \<and> half_integral (m_tile m)"
  shows "(if \<forall>d \<in> set dims. spec_indices d \<noteq> []
          then apply_masks dims r =
                 (None, map masked_dimension dims,
                  r * prod_list (map (\<lambda>d. length (spec_indices d)) dims))
          else \<exists>dims' r'. apply_masks dims r = (Some ValueError_exclude_all, dims', r') \<and>
                 (\<exists>d \<in> set dims'. dim_indicies d = Some []))"
  using assms
proof (induction dims arbitrary: r)
  case Nil
  then show ?case by simp
next
  case (Cons d dims)
  have fm: "combine_masks (replicate (dim_size d) True) (dim_masks d) = Inr (spec_combined d)"
    using Cons.prems by (intro full_mask_consistent) simp_all
  have tl: "\<forall>d \<in> set dims. \<forall>m \<in> set (dim_masks d).
             assert_consistent m (dim_size d) \<and> half_integral (m_tile m)"
    using Cons.prems by simp
  note ih = Cons.IH[OF tl, of "r * length (spec_indices d)"]
  show ?case
  proof (cases "spec_indices d = []")
    case True
    then have "apply_masks (d # dims) r =
       (Some ValueError_exclude_all, masked_dimension d # dims, r)"
      by (simp add: fm np_flatnonzero_spec masked_dimension_def)
    moreover have "dim_indicies (masked_dimension d) = Some []"
      using True by simp
    ultimately show ?thesis using True by auto
  next
    case False
    show ?thesis
    proof (cases "\<forall>d \<in> set dims. spec_indices d \<noteq> []")
      case True
      with ih have "apply_masks dims (r * length (spec_indices d)) =
          (None, map masked_dimension dims,
           r * length (spec_indices d) * prod_list (map (\<lambda>d. length (spec_indices d)) dims))"
        by simp
      then show ?thesis
        using False True
        by (simp add: fm np_flatnonzero_spec masked_dimension_def mult.assoc)
    next
      case ex: False
      with ih obtain dims' r' where
        a: "apply_masks dims (r * length (spec_indices d)) = (Some ValueError_exclude_all, dims', r')"
        and e: "\<exists>d \<in> set dims'. dim_indicies d = Some []"
        by auto
      have "apply_masks (d # dims) r =
          (Some ValueError_exclude_all, masked_dimension d # dims', r')"
        using False a by (simp add: fm np_flatnonzero_spec masked_dimension_def)
      then show ?thesis using ex e by auto
    qed
  qed
qed

lemma consistent_dimensions:
  assumes "dimensions_inv gens dims" and "masks_half_integral dims"
  shows "\<forall>d \<in> set dims. \<forall>m \<in> set (dim_masks d).
           assert_consistent m (dim_size d) \<and> half_integral (m_tile m)"
  using assms by (auto simp: dimensions_inv_def dimension_inv_def masks_half_integral_def)

lemma prepare_masks_error:
  assumes "run_excluders (generators s) (axes_points (produce_all s))
             (seed_dimensions (generators s)) (excluders s) = (None, dims1)"
      and "apply_masks dims1 1 = (Some err, dims2, rep)"
  shows "prepare s = (Some err, (produce_all s)\<lparr>dimensions := dims2\<rparr>)"
  using assms by (simp add: prepare_def Let_def)

lemma prepare_scaling_errors:
  assumes "run_excluders (generators s) (axes_points (produce_all s))
             (seed_dimensions (generators s)) (excluders s) = (None, dims1)"
      and "apply_masks dims1 1 = (None, dims2, rep)"
  shows "fst (prepare s) \<in> {None, Some KeyError, Some ZeroDivisionError}"
proof -
  obtain r3 d3 where e3: "dim_scaling dims2 1 rep = (r3, d3)" by fastforce
  obtain r4 sc where e4: "all_gen_scaling (generators s) d3 (generator_dim_scaling s) = (r4, sc)"
    by fastforce
  show ?thesis
    using assms e3 e4 dim_scaling_errors[of dims2 1 rep]
      all_gen_scaling_errors[of "generators s" d3 "generator_dim_scaling s"]
    by (auto simp: prepare_def Let_def split: option.splits)
qed

text \<open>
  Claim C5. Let the axis names of the generators be distinct (as the constructor
  checks), let every generator hold, for each of its axes, arrays as long as its count,
  and let every excluder return a mask as long as its coordinate arrays. Then the
  consistency assertion of \<open>prepare\<close> never fires (nor does numpy reject the conjunction
  of the masks): whatever the excluder loop leaves behind, every recorded mask satisfies
  \<open>len(mask) * repeat * tile == size\<close> of its Dimension.
\<close>

theorem assertion_unreachable:
  assumes "distinct (concat (map axes (generators s)))"
      and "\<forall>g \<in> set (generators s). generator_ok g"
      and "\<forall>e \<in> set (excluders s). excluder_ok e"
  shows "fst (prepare s) \<noteq> Some AssertionError \<and>
         fst (prepare s) \<noteq> Some ValueError_broadcast \<and>
         (\<forall>d \<in> set (snd (run_excluders (generators s) (axes_points (produce_all s))
                          (seed_dimensions (generators s)) (excluders s))).
            \<forall>m \<in> set (dim_masks d).
              of_nat (length (m_mask m)) * of_nat (m_repeat m) * m_tile m
                = (of_nat (dim_size d) :: rat))"
proof -
  let ?gens = "generators s" and ?ap = "axes_points (produce_all s)"
  obtain r1 dims1 where run:
    "run_excluders ?gens ?ap (seed_dimensions ?gens) (excluders s) = (r1, dims1)" by fastforce
  have inv: "dimensions_inv ?gens dims1"
    using run_excluders_inv[OF dimensions_inv_seed assms(1)
        axes_points_ok_produce_all[OF assms(2,1)] assms(3) run] .
  have hi: "masks_half_integral dims1"
    using masks_half_integral_run[OF masks_half_integral_seed run] .
  note c = consistent_dimensions[OF inv hi]
  have masks: "\<forall>d \<in> set dims1. \<forall>m \<in> set (dim_masks d).
              of_nat (length (m_mask m)) * of_nat (m_repeat m) * m_tile m
                = (of_nat (dim_size d) :: rat)"
    using c by (simp add: assert_consistent_def)
  have "fst (prepare s) \<noteq> Some AssertionError \<and> fst (prepare s) \<noteq> Some ValueError_broadcast"
  proof (cases r1)
    case (Some err)
    have "fst (run_excluders ?gens ?ap (seed_dimensions ?gens) (excluders s)) = Some err"
      using run Some by simp
    then have "err \<noteq> AssertionError \<and> err \<noteq> ValueError_broadcast"
      using run_excluders_errors[of ?gens ?ap "seed_dimensions ?gens" "excluders s"] by auto
    then show ?thesis
      using prepare_excluder_error[OF run[unfolded Some]] by simp
  next
    case None
    note run' = run[unfolded None]
    show ?thesis
    proof (cases "\<forall>d \<in> set dims1. spec_indices d \<noteq> []")
      case True
      have "apply_masks dims1 1 = (None, map masked_dimension dims1,
                   1 * prod_list (map (\<lambda>d. length (spec_indices d)) dims1))"
        using apply_masks_consistent[OF c, of 1] unfolding if_P[OF True] .
      from prepare_scaling_errors[OF run' this] show ?thesis by auto
    next
      case False
      have "\<exists>dims' r'. apply_masks dims1 1 = (Some ValueError_exclude_all, dims', r') \<and>
                 (\<exists>d \<in> set dims'. dim_indicies d = Some [])"
        using apply_masks_consistent[OF c, of 1] unfolding if_not_P[OF False] .
      then obtain dims' r' where "apply_masks dims1 1 = (Some ValueError_exclude_all, dims', r')"
        by blast
      from prepare_masks_error[OF run' this] show ?thesis by simp
    qed
  qed
  then show ?thesis using masks run by simp
qed


lemma example_generators_ok:
  "generator_ok gen_A" "generator_ok gen_B" "generator_ok gen_C"
  "generator_ok gen_A_alt" "generator_ok gen_B_alt"
  by (auto simp: generator_ok_def arrays_ok_def gen_A_def gen_B_def gen_C_def
      gen_A_alt_def gen_B_alt_def split: if_splits)

lemma example_excluders_ok: "excluder_ok excluder_ab" "excluder_ok excluder_ac"
  by (simp_all add: excluder_ok_def excluder_ab_def excluder_ac_def)

theorem assertion_unreachable_witness:
  "init [gen_A_alt, gen_B_alt] [excluder_ab] [] = Inr config_alt_masked \<and>
   distinct (concat (map axes (generators config_alt_masked))) \<and>
   list_all generator_ok (generators config_alt_masked) \<and>
   list_all excluder_ok (excluders config_alt_masked) \<and>
   fst (prepare config_alt_masked) \<noteq> Some AssertionError \<and>
   fst (prepare config_alt_masked) \<noteq> Some ValueError_broadcast \<and>
   list_all (\<lambda>d. list_all (\<lambda>m. of_nat (length (m_mask m)) * of_nat (m_repeat m) * m_tile m
                                  = (of_nat (dim_size d) :: rat)) (dim_masks d))
     (snd (run_excluders (generators config_alt_masked)
             (axes_points (produce_all config_alt_masked))
             (seed_dimensions (generators config_alt_masked)) (excluders config_alt_masked))) \<and>
   map (\<lambda>d. (dim_size d, map (\<lambda>m. (length (m_mask m), m_repeat m, m_tile m)) (dim_masks d)))
     (snd (run_excluders (generators config_alt_masked)
             (axes_points (produce_all config_alt_masked))
             (seed_dimensions (generators config_alt_masked)) (excluders config_alt_masked)))
     = [(6, [(12, 1, 1 / 2)])]"
proof -
  have g: "generators config_alt_masked = [gen_A_alt, gen_B_alt]"
    and e: "excluders config_alt_masked = [excluder_ab]"
    by (simp_all add: config_alt_masked_def new_compound_def)
  have d: "distinct (concat (map axes (generators config_alt_masked)))"
    unfolding g by (simp add: gen_A_alt_def gen_B_alt_def gen_A_def gen_B_def)
  have i: "init [gen_A_alt, gen_B_alt] [excluder_ab] [] = Inr config_alt_masked"
    by (simp add: init_def config_alt_masked_def gen_A_alt_def gen_B_alt_def gen_A_def gen_B_def)
  have gok: "\<forall>g \<in> set (generators config_alt_masked). generator_ok g"
    unfolding g by (simp add: example_generators_ok)
  have eok: "\<forall>e \<in> set (excluders config_alt_masked). excluder_ok e"
    unfolding e by (simp add: example_excluders_ok)
  have v: "map (\<lambda>d. (dim_size d, map (\<lambda>m. (length (m_mask m), m_repeat m, m_tile m)) (dim_masks d)))
     (snd (run_excluders (generators config_alt_masked)
             (axes_points (produce_all config_alt_masked))
             (seed_dimensions (generators config_alt_masked)) (excluders config_alt_masked)))
     = [(6, [(12, 1, 1 / 2)])]"
    by code_simp
  note t = assertion_unreachable[OF d gok eok]
  show ?thesis
    using i d gok eok v t by (simp only: list_all_iff) blast
qed

subsection \<open>A Dimension without valid indices\<close>

lemma point_dims_empty_indices:
  assumes "\<exists>d \<in> set dims. dim_indicies d = Some []"
  shows "isl (point_dims s n dims kc p)"
  using assms
proof (induction dims arbitrary: kc p)
  case Nil
  then show ?case by simp
next
  case (Cons d dims)
  show ?case
  proof (cases "dim_indicies d")
    case None
    then show ?thesis by simp
  next
    case (Some ind)
    show ?thesis
    proof (cases "dim_repeat d = 0 \<or> length ind = 0")
      case True
      then show ?thesis using Some by auto
    next
      case False
      then have "\<exists>d \<in> set dims. dim_indicies d = Some []"
        using Cons.prems Some by auto
      note ih = Cons.IH[OF this]
      show ?thesis using False Some ih
        by (simp add: Let_def split: sum.splits)
    qed
  qed
qed

lemma dim_scaling_total:
  assumes "\<forall>d \<in> set dims. \<exists>ind. dim_indicies d = Some ind \<and> ind \<noteq> []"
  shows "fst (dim_scaling dims t r) = None"
  using assms
proof (induction dims arbitrary: t r)
  case Nil
  then show ?case by simp
next
  case (Cons d dims)
  then obtain ind where ind: "dim_indicies d = Some ind" "ind \<noteq> []" by auto
  have "fst (dim_scaling dims (t * length ind) (r div length ind)) = None"
    using Cons by simp
  then show ?case using ind
    by (cases "dim_scaling dims (t * length ind) (r div length ind)") simp
qed

lemma gen_scaling_total:
  assumes "\<forall>g \<in> set gs. num (gens ! g) \<noteq> 0"
  shows "fst (gen_scaling gens gs t r sc) = None"
  using assms
  by (induction gs arbitrary: t r sc) (simp_all del: fun_upd_apply)

lemma all_gen_scaling_total:
  assumes "\<forall>d \<in> set dims. \<forall>g \<in> set (dim_generators d). num (gens ! g) \<noteq> 0"
  shows "fst (all_gen_scaling gens dims sc) = None"
  using assms
proof (induction dims arbitrary: sc)
  case Nil
  then show ?case by simp
next
  case (Cons d dims)
  obtain e sc' where g: "gen_scaling gens (dim_generators d) 1
      (gens_scale gens (dim_generators d)) sc = (e, sc')" by fastforce
  have "e = None"
    using gen_scaling_total[of "dim_generators d" gens 1 "gens_scale gens (dim_generators d)" sc]
      Cons.prems g by simp
  then show ?case using g Cons by simp
qed

lemma spec_indices_size: "spec_indices d \<noteq> [] \<Longrightarrow> 0 < dim_size d"
  by (cases "dim_size d") (simp_all add: spec_indices_def)

lemma positive_counts:
  assumes "dimension_inv gens d" and "spec_indices d \<noteq> []"
  shows "\<forall>g \<in> set (dim_generators d). num (gens ! g) \<noteq> 0"
proof -
  have "prod_list (map (\<lambda>g. num (gens ! g)) (dim_generators d)) \<noteq> 0"
    using assms spec_indices_size[OF assms(2)] by (simp add: dimension_inv_def gens_scale_prod)
  then show ?thesis by (auto simp: prod_list_zero_iff)
qed

lemma prepare_success:
  assumes "run_excluders (generators s) (axes_points (produce_all s))
             (seed_dimensions (generators s)) (excluders s) = (None, dims1)"
      and "apply_masks dims1 1 = (None, dims2, rep)"
      and "fst (dim_scaling dims2 1 rep) = None"
      and "fst (all_gen_scaling (generators s) (snd (dim_scaling dims2 1 rep))
                  (generator_dim_scaling s)) = None"
  shows "fst (prepare s) = None"
proof -
  obtain d3 where e3: "dim_scaling dims2 1 rep = (None, d3)"
    using assms(3) by (cases "dim_scaling dims2 1 rep") simp
  obtain sc where e4: "all_gen_scaling (generators s) d3 (generator_dim_scaling s) = (None, sc)"
    using assms(4) e3
    by (cases "all_gen_scaling (generators s) d3 (generator_dim_scaling s)") simp
  show ?thesis using assms(1,2) e3 e4 by (simp add: prepare_def Let_def)
qed

lemma get_point_after_mask_error:
  assumes "run_excluders (generators s) (axes_points (produce_all s))
             (seed_dimensions (generators s)) (excluders s) = (None, dims1)"
      and "apply_masks dims1 1 = (Some err, dims2, rep)"
      and "\<exists>d \<in> set dims2. dim_indicies d = Some []"
  shows "isl (get_point (snd (prepare s)) n)"
proof -
  have st: "snd (prepare s) = (produce_all s)\<lparr>dimensions := dims2\<rparr>"
    using prepare_masks_error[OF assms(1,2)] by simp
  show ?thesis
    unfolding get_point_def st
    using point_dims_empty_indices[OF assms(3)]
    by (simp add: produce_all_def)
qed

subsection \<open>The mask error\<close>

text \<open>
  Claim C6. Let the collaborators keep their contracts and let the loop over the
  excluders raise nothing. If the combined mask of some Dimension it leaves behind is
  false everywhere, \<open>prepare\<close> raises the mask error, and in the object it leaves behind
  \<open>get_point\<close> fails at every index. If every Dimension keeps at least one valid index,
  \<open>prepare\<close> completes without any error.
\<close>

theorem mask_error_iff_empty_dimension:
  assumes "distinct (concat (map axes (generators s)))"
      and "\<forall>g \<in> set (generators s). generator_ok g"
      and "\<forall>e \<in> set (excluders s). excluder_ok e"
      and "fst (run_excluders (generators s) (axes_points (produce_all s))
                  (seed_dimensions (generators s)) (excluders s)) = None"
  shows "((\<exists>d \<in> set (excluded_dimensions s). spec_indices d = []) \<longrightarrow>
            fst (prepare s) = Some ValueError_exclude_all \<and>
            (\<forall>n. isl (get_point (snd (prepare s)) n))) \<and>
         ((\<forall>d \<in> set (excluded_dimensions s). spec_indices d \<noteq> []) \<longrightarrow>
            fst (prepare s) = None)"
proof -
  let ?gens = "generators s" and ?ap = "axes_points (produce_all s)"
  let ?dims1 = "excluded_dimensions s"
  have run: "run_excluders ?gens ?ap (seed_dimensions ?gens) (excluders s) = (None, ?dims1)"
    using assms(4) by (simp add: excluded_dimensions_def prod_eq_iff)
  have inv: "dimensions_inv ?gens ?dims1"
    using run_excluders_inv[OF dimensions_inv_seed assms(1)
        axes_points_ok_produce_all[OF assms(2,1)] assms(3) run] .
  have hi: "masks_half_integral ?dims1"
    using masks_half_integral_run[OF masks_half_integral_seed run] .
  note c = consistent_dimensions[OF inv hi]
  show ?thesis
  proof (intro conjI impI)
    assume "\<exists>d \<in> set ?dims1. spec_indices d = []"
    then have ne: "\<not> (\<forall>d \<in> set ?dims1. spec_indices d \<noteq> [])" by blast
    have "\<exists>dims' r'. apply_masks ?dims1 1 = (Some ValueError_exclude_all, dims', r') \<and>
                 (\<exists>d \<in> set dims'. dim_indicies d = Some [])"
      using apply_masks_consistent[OF c, of 1] unfolding if_not_P[OF ne] .
    then obtain dims' r' where am: "apply_masks ?dims1 1 = (Some ValueError_exclude_all, dims', r')"
      and em: "\<exists>d \<in> set dims'. dim_indicies d = Some []"
      by blast
    show "fst (prepare s) = Some ValueError_exclude_all"
      using prepare_masks_error[OF run am] by simp
    show "\<forall>n. isl (get_point (snd (prepare s)) n)"
      using get_point_after_mask_error[OF run am em] by blast
  next
    assume all: "\<forall>d \<in> set ?dims1. spec_indices d \<noteq> []"
    have am: "apply_masks ?dims1 1 = (None, map masked_dimension ?dims1,
                   1 * prod_list (map (\<lambda>d. length (spec_indices d)) ?dims1))"
      using apply_masks_consistent[OF c, of 1] unfolding if_P[OF all] .
    let ?rep = "1 * prod_list (map (\<lambda>d. length (spec_indices d)) ?dims1)"
    let ?dims2 = "map masked_dimension ?dims1"
    have ds: "fst (dim_scaling ?dims2 1 ?rep) = None"
      using all by (intro dim_scaling_total) simp
    obtain e3 dims3 where d3: "dim_scaling ?dims2 1 ?rep = (e3, dims3)" by fastforce
    have gen: "map dim_generators dims3 = map dim_generators ?dims1"
      using dim_scaling_frame[OF d3] by (simp add: comp_def)
    have "\<forall>d \<in> set dims3. \<forall>g \<in> set (dim_generators d). num (?gens ! g) \<noteq> 0"
    proof
      fix d assume "d \<in> set dims3"
      then have "dim_generators d \<in> set (map dim_generators ?dims1)"
        using gen by (metis image_eqI list.set_map)
      then obtain d1 where d1: "d1 \<in> set ?dims1" "dim_generators d = dim_generators d1" by auto
      have "dimension_inv ?gens d1" using inv d1(1) by (simp add: dimensions_inv_def)
      from positive_counts[OF this] all d1
      show "\<forall>g \<in> set (dim_generators d). num (?gens ! g) \<noteq> 0" by simp
    qed
    then have "fst (all_gen_scaling ?gens dims3 (generator_dim_scaling s)) = None"
      by (rule all_gen_scaling_total)
    then have "fst (all_gen_scaling ?gens (snd (dim_scaling ?dims2 1 ?rep))
                  (generator_dim_scaling s)) = None"
      using d3 by simp
    from prepare_success[OF run am ds this] show "fst (prepare s) = None" .
  qed
qed

lemma example_excluder_none_ok: "excluder_ok excluder_none"
  by (simp add: excluder_ok_def excluder_none_def)

theorem mask_error_iff_empty_dimension_witness:
  "distinct (concat (map axes (generators config_excluded))) \<and>
   list_all generator_ok (generators config_excluded) \<and>
   list_all excluder_ok (excluders config_excluded) \<and>
   fst (run_excluders (generators config_excluded) (axes_points (produce_all config_excluded))
          (seed_dimensions (generators config_excluded)) (excluders config_excluded)) = None \<and>
   list_ex (\<lambda>d. spec_indices d = []) (excluded_dimensions config_excluded) \<and>
   fst (prepare config_excluded) = Some ValueError_exclude_all \<and>
   isl (get_point (snd (prepare config_excluded)) 0) \<and>
   distinct (concat (map axes (generators config_masked))) \<and>
   list_all generator_ok (generators config_masked) \<and>
   list_all excluder_ok (excluders config_masked) \<and>
   fst (run_excluders (generators config_masked) (axes_points (produce_all config_masked))
          (seed_dimensions (generators config_masked)) (excluders config_masked)) = None \<and>
   list_all (\<lambda>d. spec_indices d \<noteq> []) (excluded_dimensions config_masked) \<and>
   fst (prepare config_masked) = None"
proof -
  have g: "generators config_excluded = [gen_A, gen_B]" "generators config_masked = [gen_A, gen_B]"
    and e: "excluders config_excluded = [excluder_none]" "excluders config_masked = [excluder_ab]"
    by (simp_all add: config_excluded_def config_masked_def new_compound_def)
  have d: "distinct (concat (map axes (generators config_excluded)))"
    "distinct (concat (map axes (generators config_masked)))"
    unfolding g by (simp_all add: gen_A_def gen_B_def)
  have gok: "\<forall>g \<in> set (generators config_excluded). generator_ok g"
    "\<forall>g \<in> set (generators config_masked). generator_ok g"
    unfolding g by (simp_all add: example_generators_ok)
  have eok: "\<forall>e \<in> set (excluders config_excluded). excluder_ok e"
    "\<forall>e \<in> set (excluders config_masked). excluder_ok e"
    unfolding e by (simp_all add: example_excluders_ok example_excluder_none_ok)
  have r1: "fst (run_excluders (generators config_excluded) (axes_points (produce_all config_excluded))
          (seed_dimensions (generators config_excluded)) (excluders config_excluded)) = None"
    by code_simp
  have r2: "fst (run_excluders (generators config_masked) (axes_points (produce_all config_masked))
          (seed_dimensions (generators config_masked)) (excluders config_masked)) = None"
    by code_simp
  have x1: "list_ex (\<lambda>d. spec_indices d = []) (excluded_dimensions config_excluded)"
    by code_simp
  have x2: "list_all (\<lambda>d. spec_indices d \<noteq> []) (excluded_dimensions config_masked)"
    by code_simp
  note t1 = mask_error_iff_empty_dimension[OF d(1) gok(1) eok(1) r1]
  note t2 = mask_error_iff_empty_dimension[OF d(2) gok(2) eok(2) r2]
  have c1: "fst (prepare config_excluded) = Some ValueError_exclude_all"
    "isl (get_point (snd (prepare config_excluded)) 0)"
    using t1 x1 by (auto simp: list_ex_iff)
  have c2: "fst (prepare config_masked) = None"
    using t2 x2 by (auto simp: list_all_iff)
  show ?thesis
    using d gok eok r1 r2 x1 x2 c1 c2 by (simp only: list_all_iff)
qed

subsection \<open>Generators without excluders\<close>

lemma arrays_ok_lookup:
  assumes "arrays_ok d as n" and "a \<in> set as"
  shows "\<exists>xs. d a = Some xs \<and> length xs = n"
proof -
  have "a \<in> dom d" using assms by (simp add: arrays_ok_def)
  then obtain xs where "d a = Some xs" by blast
  then show ?thesis using assms(1) by (auto simp: arrays_ok_def)
qed

lemma set_axes_result:
  assumes "generator_ok g" and "j < num g" and "set as \<subseteq> set (axes g)"
  shows "\<exists>p'. set_axes g j as p = Inr p' \<and> indexes p' = indexes p \<and>
           (\<forall>a. positions p' a =
                  (if a \<in> set as then map_option (\<lambda>xs. xs ! j) (points g a) else positions p a)) \<and>
           (\<forall>a. lower p' a =
                  (if a \<in> set as then map_option (\<lambda>xs. xs ! j) (points_lower g a) else lower p a)) \<and>
           (\<forall>a. upper p' a =
                  (if a \<in> set as then map_option (\<lambda>xs. xs ! j) (points_upper g a) else upper p a))"
  using assms(3)
proof (induction as arbitrary: p)
  case Nil
  then show ?case by simp
next
  case (Cons a as)
  have a: "a \<in> set (axes g)" using Cons.prems by simp
  obtain xs where xs: "points g a = Some xs" "length xs = num g"
    using arrays_ok_lookup[OF _ a, of "points g" "num g"] assms(1) by (auto simp: generator_ok_def)
  obtain ls where ls: "points_lower g a = Some ls" "length ls = num g"
    using arrays_ok_lookup[OF _ a, of "points_lower g" "num g"] assms(1)
    by (auto simp: generator_ok_def)
  obtain us where us: "points_upper g a = Some us" "length us = num g"
    using arrays_ok_lookup[OF _ a, of "points_upper g" "num g"] assms(1)
    by (auto simp: generator_ok_def)
  let ?p = "p\<lparr>positions := (positions p)(a \<mapsto> xs ! j), lower := (lower p)(a \<mapsto> ls ! j),
               upper := (upper p)(a \<mapsto> us ! j)\<rparr>"
  have step: "set_axes g j (a # as) p = set_axes g j as ?p"
    using xs ls us assms(2) by (simp add: lookup_at_def)
  from Cons.IH[of ?p] Cons.prems obtain p' where
    p': "set_axes g j as ?p = Inr p'" "indexes p' = indexes ?p"
      "\<forall>b. positions p' b =
          (if b \<in> set as then map_option (\<lambda>xs. xs ! j) (points g b) else positions ?p b)"
      "\<forall>b. lower p' b =
          (if b \<in> set as then map_option (\<lambda>xs. xs ! j) (points_lower g b) else lower ?p b)"
      "\<forall>b. upper p' b =
          (if b \<in> set as then map_option (\<lambda>xs. xs ! j) (points_upper g b) else upper ?p b)"
    by auto
  show ?case
    unfolding step using p' xs ls us by auto
qed

lemma prepare_one_generator:
  assumes "generators s = [g]" and "excluders s = []" and "0 < num g"
  shows "fst (prepare s) = None"
    and "self_num (snd (prepare s)) = Some (num g)"
    and "generators (snd (prepare s)) = [g]"
    and "generator_dim_scaling (snd (prepare s)) 0 = Some (1, 1)"
    and "dimensions (snd (prepare s)) =
           [(seed_dimension [g] 0)\<lparr>dim_mask := Some (replicate (num g) True),
              dim_indicies := Some [0..<num g], dim_tile := 1, dim_repeat := 1\<rparr>]"
  using assms
  by (simp_all add: prepare_def produce_all_def seed_dimensions_def Let_def
      np_flatnonzero_all gens_scale_def seed_dimension_def)

lemma prepare_two_generators:
  assumes "generators s = [gA, gB]" and "excluders s = []" and "0 < num gA" and "0 < num gB"
  shows "fst (prepare s) = None"
    and "self_num (snd (prepare s)) = Some (num gA * num gB)"
    and "generators (snd (prepare s)) = [gA, gB]"
    and "generator_dim_scaling (snd (prepare s)) 0 = Some (1, 1)"
    and "generator_dim_scaling (snd (prepare s)) (Suc 0) = Some (1, 1)"
    and "dimensions (snd (prepare s)) =
           [(seed_dimension [gA, gB] 0)\<lparr>dim_mask := Some (replicate (num gA) True),
              dim_indicies := Some [0..<num gA], dim_tile := 1, dim_repeat := num gB\<rparr>,
            (seed_dimension [gA, gB] 1)\<lparr>dim_mask := Some (replicate (num gB) True),
              dim_indicies := Some [0..<num gB], dim_tile := num gA, dim_repeat := 1\<rparr>]"
  using assms
  by (simp_all add: prepare_def produce_all_def seed_dimensions_def Let_def
      np_flatnonzero_all gens_scale_def seed_dimension_def)

end
